theory Spec2Isabelle
  imports Main "HOL-Library.Monad_Syntax"
begin

section \<open>Characters and strings of the detector\<close>

text \<open>
  A character of the model is a Python code point below 256, a \<^typ>\<open>string\<close> is a Python
  \<open>str\<close> of such code points. The character tables below are those that Python's \<open>re\<close>
  and \<open>str\<close> use on that range for \<open>str\<close> patterns: \<open>\d\<close> is a decimal digit, \<open>\w\<close> is
  an alphanumeric character or the underscore, \<open>str.isspace\<close> is the white space that
  \<open>strip()\<close> and \<open>split()\<close> remove.
\<close>

definition code :: "char \<Rightarrow> nat" where
  "code c = of_char c"

definition is_digit :: "char \<Rightarrow> bool" where
  "is_digit c = (48 \<le> code c \<and> code c \<le> 57)"

definition is_upper :: "char \<Rightarrow> bool" where
  "is_upper c = (65 \<le> code c \<and> code c \<le> 90)"

definition is_lower :: "char \<Rightarrow> bool" where
  "is_lower c = (97 \<le> code c \<and> code c \<le> 122)"

definition is_alpha :: "char \<Rightarrow> bool" where
  "is_alpha c = (is_upper c \<or> is_lower c)"

definition is_alnum :: "char \<Rightarrow> bool" where
  "is_alnum c = (is_alpha c \<or> is_digit c)"

definition is_word :: "char \<Rightarrow> bool" where
  "is_word c = (is_alnum c \<or> code c = 95 \<or> code c = 170 \<or> code c = 178 \<or> code c = 179
     \<or> code c = 181 \<or> code c = 185 \<or> code c = 186 \<or> (188 \<le> code c \<and> code c \<le> 190)
     \<or> (192 \<le> code c \<and> code c \<le> 214) \<or> (216 \<le> code c \<and> code c \<le> 246)
     \<or> 248 \<le> code c)"

definition is_space :: "char \<Rightarrow> bool" where
  "is_space c = ((9 \<le> code c \<and> code c \<le> 13) \<or> (28 \<le> code c \<and> code c \<le> 32)
     \<or> code c = 133 \<or> code c = 160)"

text \<open>\<open>s.strip()\<close>\<close>

definition strip :: "string \<Rightarrow> string" where
  "strip s = rev (dropWhile is_space (rev (dropWhile is_space s)))"

text \<open>\<open>s.split()\<close>: the maximal runs of characters that are not white space.\<close>

fun split_ws_acc :: "string \<Rightarrow> string \<Rightarrow> string list" where
  "split_ws_acc cur [] = (if cur = [] then [] else [cur])"
| "split_ws_acc cur (c # cs) =
     (if is_space c then (if cur = [] then split_ws_acc [] cs else cur # split_ws_acc [] cs)
      else split_ws_acc (cur @ [c]) cs)"

definition split_ws :: "string \<Rightarrow> string list" where
  "split_ws s = split_ws_acc [] s"

text \<open>\<open>s.split(d)\<close> for a one-character separator: empty pieces are kept.\<close>

fun split_on_acc :: "char \<Rightarrow> string \<Rightarrow> string \<Rightarrow> string list" where
  "split_on_acc d cur [] = [cur]"
| "split_on_acc d cur (c # cs) =
     (if c = d then cur # split_on_acc d [] cs else split_on_acc d (cur @ [c]) cs)"

definition split_on :: "char \<Rightarrow> string \<Rightarrow> string list" where
  "split_on d s = split_on_acc d [] s"

text \<open>\<open>sep.join(parts)\<close>\<close>

fun join :: "string \<Rightarrow> string list \<Rightarrow> string" where
  "join sep [] = []"
| "join sep [p] = p"
| "join sep (p # q # ps) = p @ sep @ join sep (q # ps)"

text \<open>\<open>str(n)\<close> for an integer.\<close>

definition digit_char :: "nat \<Rightarrow> char" where
  "digit_char d = char_of (48 + d)"

fun str_nat :: "nat \<Rightarrow> string" where
  "str_nat n = (if n < 10 then [digit_char n] else str_nat (n div 10) @ [digit_char (n mod 10)])"

definition str_int :: "int \<Rightarrow> string" where
  "str_int i = (if i < 0 then CHR ''-'' # str_nat (nat (- i)) else str_nat (nat i))"

section \<open>Values and records\<close>

text \<open>
  A field value is what \<open>json.loads\<close> produces. The detector observes of a value only
  whether it is a \<open>str\<close>, its truth value and its \<open>str()\<close> rendering (and \<open>main\<close> its
  \<open>json.dumps\<close> rendering), so a float, a list or a nested object is \<open>POther t s j\<close>: its
  truth value \<open>t\<close>, its \<open>str()\<close> \<open>s\<close> and its \<open>json.dumps()\<close> \<open>j\<close>.
  A record is a Python \<open>dict\<close> in insertion order.
\<close>

datatype pyval = PNone | PBool bool | PInt int | PStr string | POther bool string string

type_synonym pydict = "(string \<times> pyval) list"

fun truthy :: "pyval \<Rightarrow> bool" where
  "truthy PNone = False"
| "truthy (PBool b) = b"
| "truthy (PInt i) = (i \<noteq> 0)"
| "truthy (PStr s) = (s \<noteq> [])"
| "truthy (POther t s j) = t"

fun py_str :: "pyval \<Rightarrow> string" where
  "py_str PNone = ''None''"
| "py_str (PBool b) = (if b then ''True'' else ''False'')"
| "py_str (PInt i) = str_int i"
| "py_str (PStr s) = s"
| "py_str (POther t s j) = s"

text \<open>\<open>d.get(k)\<close>, \<open>k in d\<close> and \<open>d[k] = v\<close> (an existing key keeps its place).\<close>

definition dget :: "pydict \<Rightarrow> string \<Rightarrow> pyval" where
  "dget d k = (case map_of d k of None \<Rightarrow> PNone | Some v \<Rightarrow> v)"

definition has_key :: "pydict \<Rightarrow> string \<Rightarrow> bool" where
  "has_key d k = (map_of d k \<noteq> None)"

fun dset :: "pydict \<Rightarrow> string \<Rightarrow> pyval \<Rightarrow> pydict" where
  "dset [] k v = [(k, v)]"
| "dset ((k', v') # d) k v = (if k' = k then (k, v) # d else (k', v') # dset d k v)"

section \<open>Regular expressions\<close>

text \<open>
  The patterns of the detector use character classes, greedy bounded repetition of a
  class, concatenation, capturing groups and \<open>\b\<close>. \<open>rmatch\<close> is the backtracking matcher
  of \<open>re\<close>: it lists, in the order in which backtracking tries them, the ways the pattern
  matches at the start of \<open>s\<close>, where \<open>p\<close> is the character before \<open>s\<close> (for \<open>\b\<close>). A way
  is the captured groups (numbered by their opening parenthesis), the matched text and
  the rest of the string. \<open>re\<close> takes the first way.
\<close>

datatype regex =
    Eps
  | Cls "char \<Rightarrow> bool"
  | Rep nat "nat option" "char \<Rightarrow> bool"
  | Seq regex regex
  | Grp regex
  | WordB

text \<open>Greedy \<open>[cls]{lo,hi}\<close> (\<open>hi = None\<close>: unbounded): one more character first, stopping
  here second.\<close>

fun greedy :: "nat \<Rightarrow> nat option \<Rightarrow> (char \<Rightarrow> bool) \<Rightarrow> string \<Rightarrow> (string \<times> string) list" where
  "greedy lo hi P [] = (if lo = 0 then [([], [])] else [])"
| "greedy lo hi P (c # cs) =
     (if P c \<and> hi \<noteq> Some 0
      then map (\<lambda>(m, r). (c # m, r)) (greedy (lo - 1) (map_option (\<lambda>h. h - 1) hi) P cs)
      else [])
     @ (if lo = 0 then [([], c # cs)] else [])"

definition word_opt :: "char option \<Rightarrow> bool" where
  "word_opt p = (case p of None \<Rightarrow> False | Some c \<Rightarrow> is_word c)"

definition at_boundary :: "char option \<Rightarrow> string \<Rightarrow> bool" where
  "at_boundary p s = (word_opt p \<noteq> word_opt (case s of [] \<Rightarrow> None | c # _ \<Rightarrow> Some c))"

definition prev_after :: "char option \<Rightarrow> string \<Rightarrow> char option" where
  "prev_after p m = (if m = [] then p else Some (last m))"

fun rmatch :: "regex \<Rightarrow> char option \<Rightarrow> string \<Rightarrow> (string list \<times> string \<times> string) list" where
  "rmatch Eps p s = [([], [], s)]"
| "rmatch (Cls P) p s = (case s of [] \<Rightarrow> [] | c # cs \<Rightarrow> if P c then [([], [c], cs)] else [])"
| "rmatch (Rep lo hi P) p s = map (\<lambda>(m, r). ([], m, r)) (greedy lo hi P s)"
| "rmatch (Seq a b) p s =
     concat (map (\<lambda>(g1, m1, r1).
               map (\<lambda>(g2, m2, r2). (g1 @ g2, m1 @ m2, r2)) (rmatch b (prev_after p m1) r1))
             (rmatch a p s))"
| "rmatch (Grp a) p s = map (\<lambda>(g, m, r). (m # g, m, r)) (rmatch a p s)"
| "rmatch WordB p s = (if at_boundary p s then [([], [], s)] else [])"

text \<open>\<open>(?:a){n}\<close> for a fixed count.\<close>

primrec times :: "nat \<Rightarrow> regex \<Rightarrow> regex" where
  "times 0 a = Eps"
| "times (Suc n) a = Seq a (times n a)"

text \<open>The number of capturing groups of a pattern.\<close>

primrec ngroups :: "regex \<Rightarrow> nat" where
  "ngroups Eps = 0"
| "ngroups (Cls P) = 0"
| "ngroups (Rep lo hi P) = 0"
| "ngroups (Seq a b) = ngroups a + ngroups b"
| "ngroups (Grp a) = Suc (ngroups a)"
| "ngroups WordB = 0"

text \<open>\<open>pattern.search(s)\<close>: the first way at the leftmost position that has one, as the
  groups and the whole match (\<open>m.group(0)\<close>); \<open>None\<close> when there is no match.\<close>

fun search_from :: "regex \<Rightarrow> char option \<Rightarrow> string \<Rightarrow> (string list \<times> string) option" where
  "search_from rx p [] = (case rmatch rx p [] of [] \<Rightarrow> None | (g, m, r) # _ \<Rightarrow> Some (g, m))"
| "search_from rx p (x # xs) =
     (case rmatch rx p (x # xs) of [] \<Rightarrow> search_from rx (Some x) xs
      | (g, m, r) # _ \<Rightarrow> Some (g, m))"

definition re_search :: "regex \<Rightarrow> string \<Rightarrow> (string list \<times> string) option" where
  "re_search rx s = search_from rx None s"

definition matches :: "regex \<Rightarrow> string \<Rightarrow> bool" where
  "matches rx s = (re_search rx s \<noteq> None)"

text \<open>
  \<open>pattern.sub(f, s)\<close> scans \<open>s\<close> from the left: at a position outside the previous match
  it takes the first way the pattern matches there, hands it to \<open>f\<close> and goes on behind
  the match; where nothing matches the character is copied. \<open>scan\<close> gives the pieces in
  order, \<open>n\<close> counting the characters still covered by the match just found. After an
  empty match \<open>re\<close> also takes the first non-empty way at the same position.
\<close>

datatype segment = Lit char | Mat "string list" string

fun scan :: "regex \<Rightarrow> nat \<Rightarrow> char option \<Rightarrow> string \<Rightarrow> segment list" where
  "scan rx n p [] =
     (if 0 < n then []
      else case rmatch rx p [] of [] \<Rightarrow> [] | (g, m, r) # _ \<Rightarrow> [Mat g m])"
| "scan rx n p (x # xs) =
     (if 0 < n then scan rx (n - 1) (Some x) xs
      else case rmatch rx p (x # xs) of
             [] \<Rightarrow> Lit x # scan rx 0 (Some x) xs
           | (g, m, r) # ws \<Rightarrow>
               if m \<noteq> [] then Mat g m # scan rx (length m - 1) (Some x) xs
               else Mat g m #
                 (case filter (\<lambda>(g', m', r'). m' \<noteq> []) ws of
                    [] \<Rightarrow> Lit x # scan rx 0 (Some x) xs
                  | (g', m', r') # _ \<Rightarrow> Mat g' m' # scan rx (length m' - 1) (Some x) xs))"

text \<open>The replacement function gets the match as its groups and its whole text.\<close>

fun seg_text :: "(string list \<times> string \<Rightarrow> string) \<Rightarrow> segment \<Rightarrow> string" where
  "seg_text f (Lit c) = [c]"
| "seg_text f (Mat g m) = f (g, m)"

definition re_sub :: "regex \<Rightarrow> (string list \<times> string \<Rightarrow> string) \<Rightarrow> string \<Rightarrow> string" where
  "re_sub rx f s = concat (map (seg_text f) (scan rx 0 None s))"

text \<open>The same with a replacement function that may raise (\<open>None\<close>): the exception leaves
  \<open>sub\<close>.\<close>

fun sub_try :: "(string list \<times> string \<Rightarrow> string option) \<Rightarrow> segment list \<Rightarrow> string option" where
  "sub_try f [] = Some []"
| "sub_try f (Lit c # ss) = map_option ((#) c) (sub_try f ss)"
| "sub_try f (Mat g m # ss) = do { t \<leftarrow> f (g, m); u \<leftarrow> sub_try f ss; Some (t @ u) }"

definition re_sub_try ::
    "regex \<Rightarrow> (string list \<times> string \<Rightarrow> string option) \<Rightarrow> string \<Rightarrow> string option" where
  "re_sub_try rx f s = sub_try f (scan rx 0 None s)"

text \<open>\<open>m.group(i)\<close>: \<open>IndexError\<close> (\<open>None\<close>) when the pattern has no group \<open>i\<close>.\<close>

definition group :: "string list \<times> string \<Rightarrow> nat \<Rightarrow> string option" where
  "group gm i =
     (if i = 0 then Some (snd gm)
      else if i \<le> length (fst gm) then Some (fst gm ! (i - 1)) else None)"

subsection \<open>The patterns of the detector\<close>

text \<open>\<open>re.I\<close> makes \<open>[A-Z]\<close> and \<open>[A-Za-z0-9]\<close> match both cases; below code point 256 no
  other character folds into them.\<close>

definition cls_email_local :: "char \<Rightarrow> bool" where
  "cls_email_local c = (is_alnum c \<or> c \<in> set ''._%+-'')"

definition cls_email_domain :: "char \<Rightarrow> bool" where
  "cls_email_domain c = (is_alnum c \<or> c \<in> set ''.-'')"

definition cls_upi_user :: "char \<Rightarrow> bool" where
  "cls_upi_user c = (is_alnum c \<or> c \<in> set ''._%-'')"

definition lit :: "char \<Rightarrow> regex" where
  "lit d = Cls (\<lambda>c. c = d)"

text \<open>\<^verbatim>\<open>\b(\d{10})\b\<close>\<close>

definition PHONE_RE :: regex where
  "PHONE_RE = Seq WordB (Seq (Grp (Rep 10 (Some 10) is_digit)) WordB)"

text \<open>\<^verbatim>\<open>\b(\d{12})\b\<close>\<close>

definition AADHAR_RE :: regex where
  "AADHAR_RE = Seq WordB (Seq (Grp (Rep 12 (Some 12) is_digit)) WordB)"

text \<open>\<^verbatim>\<open>\b([A-Z]{1}\d{7})\b\<close> with \<open>re.I\<close>\<close>

definition PASSPORT_RE :: regex where
  "PASSPORT_RE =
     Seq WordB (Seq (Grp (Seq (Rep 1 (Some 1) is_alpha) (Rep 7 (Some 7) is_digit))) WordB)"

text \<open>\<^verbatim>\<open>\b([A-Za-z0-9._%+-]+)@([A-Za-z0-9.-]+\.[A-Za-z]{2,})\b\<close>\<close>

definition EMAIL_RE :: regex where
  "EMAIL_RE =
     Seq WordB (Seq (Grp (Rep 1 None cls_email_local)) (Seq (lit CHR ''@'')
       (Seq (Grp (Seq (Rep 1 None cls_email_domain) (Seq (lit CHR ''.'') (Rep 2 None is_alpha))))
          WordB)))"

text \<open>\<^verbatim>\<open>\b([A-Za-z0-9._%-]{2,})@([A-Za-z0-9]{2,})\b\<close> with \<open>re.I\<close>\<close>

definition UPI_RE :: regex where
  "UPI_RE =
     Seq WordB (Seq (Grp (Rep 2 None cls_upi_user)) (Seq (lit CHR ''@'')
       (Seq (Grp (Rep 2 None is_alnum)) WordB)))"

text \<open>\<^verbatim>\<open>\b((?:\d{1,3}\.){3}\d{1,3})\b\<close>\<close>

definition IPV4_RE :: regex where
  "IPV4_RE =
     Seq WordB (Seq (Grp (Seq (times 3 (Seq (Rep 1 (Some 3) is_digit) (lit CHR ''.'')))
                              (Rep 1 (Some 3) is_digit))) WordB)"

text \<open>\<^verbatim>\<open>\D\<close> and \<^verbatim>\<open>.\<close> (any character but a newline).\<close>

definition NONDIGIT_RE :: regex where
  "NONDIGIT_RE = Cls (\<lambda>c. \<not> is_digit c)"

definition DOT_RE :: regex where
  "DOT_RE = Cls (\<lambda>c. code c \<noteq> 10)"

section \<open>The maskers\<close>

definition REDACTED :: string where
  "REDACTED = ''[REDACTED_PII]''"

text \<open>\<open>s[-n:]\<close>\<close>

definition last_n :: "nat \<Rightarrow> string \<Rightarrow> string" where
  "last_n n s = drop (length s - n) s"

definition mask_phone :: "string \<Rightarrow> string" where
  "mask_phone p =
     (let s = re_sub NONDIGIT_RE (\<lambda>m. []) p
      in if length s = 10 then take 2 s @ ''XXXXXX'' @ last_n 2 s else REDACTED)"

definition mask_aadhar :: "string \<Rightarrow> string" where
  "mask_aadhar a =
     (let s = re_sub NONDIGIT_RE (\<lambda>m. []) a
      in if length s = 12 then take 4 s @ ''XXXX'' @ last_n 4 s else REDACTED)"

text \<open>\<open>v[0]\<close> and \<open>v[-1]\<close> are behind \<open>len(v) >= 4\<close>; \<open>m.group(1)\<close> and an index into an
  empty string raise (\<open>None\<close>).\<close>

definition mask_passport :: "string \<Rightarrow> string option" where
  "mask_passport p =
     (case re_search PASSPORT_RE p of
        None \<Rightarrow> Some REDACTED
      | Some m \<Rightarrow> do {
          v \<leftarrow> group m 1;
          if 4 \<le> length v
          then Some (take 1 v @ replicate (length v - 2) CHR ''X'' @ last_n 1 v)
          else Some REDACTED })"

text \<open>\<open>local[0] + 'X'\<close> or \<open>local[:2] + 'X'*(max(3, len(local)-2))\<close>\<close>

definition mask_local :: "string \<Rightarrow> string option" where
  "mask_local l =
     (if length l \<le> 2
      then (case l of [] \<Rightarrow> None | c # _ \<Rightarrow> Some [c, CHR ''X''])
      else Some (take 2 l @ replicate (max 3 (length l - 2)) CHR ''X''))"

definition mask_email :: "string \<Rightarrow> string option" where
  "mask_email e =
     (case re_search EMAIL_RE e of
        None \<Rightarrow> Some REDACTED
      | Some m \<Rightarrow> do {
          l \<leftarrow> group m 1;
          domain \<leftarrow> group m 2;
          local_masked \<leftarrow> mask_local l;
          Some (local_masked @ ''@'' @ domain) })"

definition mask_upi :: "string \<Rightarrow> string option" where
  "mask_upi u =
     (case re_search UPI_RE u of
        None \<Rightarrow> Some REDACTED
      | Some m \<Rightarrow> do {
          user \<leftarrow> group m 1;
          host \<leftarrow> group m 2;
          user_masked \<leftarrow> mask_local user;
          Some (user_masked @ ''@'' @ host) })"

definition mask_ip :: "string \<Rightarrow> string option" where
  "mask_ip ip =
     (case re_search IPV4_RE ip of
        None \<Rightarrow> Some REDACTED
      | Some m \<Rightarrow> do {
          g \<leftarrow> group m 1;
          let parts = split_on CHR ''.'' g in
          if length parts = 4 then Some (join ''.'' (butlast parts @ [''XXX'']))
          else Some REDACTED })"

definition mask_token :: "string \<Rightarrow> string" where
  "mask_token p = (if length p \<le> 1 then ''X'' else take 1 p @ replicate (length p - 1) CHR ''X'')"

definition mask_generic_name :: "string \<Rightarrow> string" where
  "mask_generic_name name =
     (let s = strip name; parts = split_ws s
      in if 2 \<le> length parts then join '' '' (map mask_token parts) else s)"

section \<open>detect_and_mask\<close>

text \<open>
  The maskers above take the \<open>str()\<close> of their argument, which the model applies where
  they are called. A loop over \<open>record.items()\<close> is a fold over the record whose step may
  raise.
\<close>

fun for_items :: "(string \<times> pyval \<Rightarrow> 'a \<Rightarrow> 'a option) \<Rightarrow> pydict \<Rightarrow> 'a \<Rightarrow> 'a option" where
  "for_items f [] a = Some a"
| "for_items f (kv # kvs) a = do { b \<leftarrow> f kv a; for_items f kvs b }"

fun is_str :: "pyval \<Rightarrow> bool" where
  "is_str (PStr s) = True"
| "is_str v = False"

text \<open>\<open>redacted.get(k, '')\<close>\<close>

definition dget_default :: "pydict \<Rightarrow> string \<Rightarrow> pyval \<Rightarrow> pyval" where
  "dget_default d k dflt = (case map_of d k of None \<Rightarrow> dflt | Some v \<Rightarrow> v)"

text \<open>\<open>pattern.sub(lambda m: mask(m.group(i)), v)\<close>\<close>

definition sub_phone :: "string \<Rightarrow> string option" where
  "sub_phone v = re_sub_try PHONE_RE (\<lambda>m. map_option mask_phone (group m 1)) v"

definition sub_aadhar :: "string \<Rightarrow> string option" where
  "sub_aadhar v = re_sub_try AADHAR_RE (\<lambda>m. map_option mask_aadhar (group m 1)) v"

definition sub_passport :: "string \<Rightarrow> string option" where
  "sub_passport v = re_sub_try PASSPORT_RE (\<lambda>m. group m 1 \<bind> mask_passport) v"

definition sub_upi :: "string \<Rightarrow> string option" where
  "sub_upi v = re_sub_try UPI_RE (\<lambda>m. group m 0 \<bind> mask_upi) v"

definition sub_email :: "string \<Rightarrow> string option" where
  "sub_email v = re_sub_try EMAIL_RE (\<lambda>m. group m 0 \<bind> mask_email) v"

definition sub_ip :: "string \<Rightarrow> string option" where
  "sub_ip v = re_sub_try IPV4_RE (\<lambda>m. group m 1 \<bind> mask_ip) v"

subsection \<open>Check A: standalone identifiers\<close>

text \<open>The state of the scan is the working copy \<open>redacted\<close> and \<open>standalone_found\<close>.\<close>

definition phone_field :: "pydict \<Rightarrow> string \<Rightarrow> pydict \<times> bool \<Rightarrow> pydict \<times> bool" where
  "phone_field record f st =
     (if has_key record f \<and> truthy (dget record f) \<and> matches PHONE_RE (py_str (dget record f))
      then (dset (fst st) f (PStr (mask_phone (py_str (dget record f)))), True)
      else st)"

definition phone_fields :: "pydict \<Rightarrow> pydict \<times> bool \<Rightarrow> pydict \<times> bool" where
  "phone_fields record st = fold (phone_field record) [''phone'', ''contact''] st"

definition phone_step :: "string \<times> pyval \<Rightarrow> pydict \<times> bool \<Rightarrow> (pydict \<times> bool) option" where
  "phone_step kv st =
     (if is_str (snd kv) \<and> matches PHONE_RE (py_str (snd kv))
      then if \<not> has_key (fst st) (fst kv)
              \<or> CHR ''X'' \<notin> set (py_str (dget_default (fst st) (fst kv) (PStr [])))
           then do { t \<leftarrow> sub_phone (py_str (snd kv)); Some (dset (fst st) (fst kv) (PStr t), True) }
           else Some st
      else Some st)"

definition aadhar_step :: "string \<times> pyval \<Rightarrow> pydict \<times> bool \<Rightarrow> (pydict \<times> bool) option" where
  "aadhar_step kv st =
     (if is_str (snd kv) \<and> matches AADHAR_RE (py_str (snd kv))
      then do { t \<leftarrow> sub_aadhar (py_str (snd kv)); Some (dset (fst st) (fst kv) (PStr t), True) }
      else Some st)"

definition passport_step :: "string \<times> pyval \<Rightarrow> pydict \<times> bool \<Rightarrow> (pydict \<times> bool) option" where
  "passport_step kv st =
     (if is_str (snd kv) \<and> matches PASSPORT_RE (py_str (snd kv))
      then do { t \<leftarrow> sub_passport (py_str (snd kv)); Some (dset (fst st) (fst kv) (PStr t), True) }
      else Some st)"

text \<open>\<open>v.split('@', 1)[1]\<close>: the text behind the first \<open>@\<close>; \<open>IndexError\<close> without one.\<close>

definition after_first :: "char \<Rightarrow> string \<Rightarrow> string option" where
  "after_first d v = (case dropWhile (\<lambda>c. c \<noteq> d) v of [] \<Rightarrow> None | _ # rhs \<Rightarrow> Some rhs)"

definition upi_step :: "string \<times> pyval \<Rightarrow> pydict \<times> bool \<Rightarrow> (pydict \<times> bool) option" where
  "upi_step kv st =
     (if is_str (snd kv) \<and> CHR ''@'' \<in> set (py_str (snd kv)) \<and> matches UPI_RE (py_str (snd kv))
      then do {
        rhs \<leftarrow> after_first CHR ''@'' (py_str (snd kv));
        if CHR ''.'' \<notin> set rhs
        then do { t \<leftarrow> sub_upi (py_str (snd kv)); Some (dset (fst st) (fst kv) (PStr t), True) }
        else Some st }
      else Some st)"

definition upi_rule :: "pydict \<Rightarrow> pydict \<times> bool \<Rightarrow> (pydict \<times> bool) option" where
  "upi_rule record st =
     (if has_key record ''upi_id'' \<and> truthy (dget record ''upi_id'')
      then if matches UPI_RE (py_str (dget record ''upi_id''))
           then do { t \<leftarrow> mask_upi (py_str (dget record ''upi_id''));
                     Some (dset (fst st) ''upi_id'' (PStr t), True) }
           else Some st
      else for_items upi_step record st)"

definition standalone :: "pydict \<Rightarrow> (pydict \<times> bool) option" where
  "standalone record = do {
     st1 \<leftarrow> for_items phone_step record (phone_fields record (record, False));
     st2 \<leftarrow> for_items aadhar_step record st1;
     st3 \<leftarrow> for_items passport_step record st2;
     upi_rule record st3 }"

subsection \<open>The combinatorial signals\<close>

definition email_step :: "string \<times> pyval \<Rightarrow> pydict \<times> bool \<Rightarrow> (pydict \<times> bool) option" where
  "email_step kv st =
     (if is_str (snd kv) \<and> matches EMAIL_RE (py_str (snd kv))
      then do { t \<leftarrow> sub_email (py_str (snd kv)); Some (dset (fst st) (fst kv) (PStr t), True) }
      else Some st)"

definition both_names :: "pydict \<Rightarrow> bool" where
  "both_names record = (truthy (dget record ''first_name'') \<and> truthy (dget record ''last_name''))"

definition name_tokens :: "pydict \<Rightarrow> nat" where
  "name_tokens record = length (split_ws (py_str (dget record ''name'')))"

definition name_rule :: "pydict \<Rightarrow> pydict \<Rightarrow> pydict \<times> bool" where
  "name_rule record red =
     (if both_names record \<or> (truthy (dget record ''name'') \<and> 2 \<le> name_tokens record)
      then
        (let red1 = (if both_names record
               then dset (dset red ''first_name''
                            (PStr (mask_generic_name (py_str (dget record ''first_name'')))))
                         ''last_name'' (PStr (mask_generic_name (py_str (dget record ''last_name''))))
               else red);
             red2 = (if truthy (dget record ''name'')
               then dset red1 ''name'' (PStr (mask_generic_name (py_str (dget record ''name''))))
               else red1)
         in (red2, True))
      else (red, False))"

definition mask_pin :: "string \<Rightarrow> string" where
  "mask_pin p = (if 3 < length p then take 2 p @ ''XXX'' else ''XXX'')"

definition address_rule :: "pydict \<Rightarrow> pydict \<Rightarrow> pydict \<times> bool" where
  "address_rule record red =
     (if truthy (dget record ''address'') \<and> truthy (dget record ''city'')
         \<and> truthy (dget record ''pin_code'')
      then
        (let pc = re_sub NONDIGIT_RE (\<lambda>m. []) (py_str (dget record ''pin_code''))
         in if 5 \<le> length pc
            then (dset (dset red ''address'' (PStr ''[REDACTED_PII_ADDRESS]''))
                       ''pin_code'' (PStr (mask_pin (py_str (dget record ''pin_code'')))), True)
            else (red, False))
      else (red, False))"

definition device_rule :: "pydict \<Rightarrow> pydict \<Rightarrow> (pydict \<times> bool) option" where
  "device_rule record red =
     (if truthy (dget record ''device_id'') \<or> truthy (dget record ''ip_address'')
      then do {
        let st1 = (if truthy (dget record ''device_id'')
               then (dset red ''device_id''
                       (PStr (re_sub DOT_RE (\<lambda>m. ''X'') (py_str (dget record ''device_id'')))), True)
               else (red, False));
        if truthy (dget record ''ip_address'')
        then do { t \<leftarrow> mask_ip (py_str (dget record ''ip_address''));
                  Some (dset (fst st1) ''ip_address'' (PStr t), True) }
        else Some st1 }
      else Some (red, False))"

record evidence =
  redacted :: pydict
  standalone_found :: bool
  email_present :: bool
  name_present :: bool
  address_present :: bool
  device_present :: bool

definition gather :: "pydict \<Rightarrow> evidence option" where
  "gather record = do {
     (red5, sa) \<leftarrow> standalone record;
     (red6, em) \<leftarrow> for_items email_step record (red5, False);
     let (red7, nm) = name_rule record red6;
     let (red8, ad) = address_rule record red7;
     (red9, dv) \<leftarrow> device_rule record red8;
     Some \<lparr> redacted = red9, standalone_found = sa, email_present = em, name_present = nm,
            address_present = ad, device_present = dv \<rparr> }"

definition combinatorial_count :: "evidence \<Rightarrow> nat" where
  "combinatorial_count e =
     (if name_present e then 1 else 0) + (if email_present e then 1 else 0)
     + (if address_present e then 1 else 0) + (if device_present e then 1 else 0)"

subsection \<open>Roll back on a negative verdict, sweep on a positive one\<close>

definition restore_email :: "string \<times> pyval \<Rightarrow> pydict \<Rightarrow> pydict option" where
  "restore_email kv red =
     (if is_str (snd kv) \<and> matches EMAIL_RE (py_str (snd kv)) \<and> has_key red (fst kv)
      then Some (dset red (fst kv) (snd kv)) else Some red)"

definition restore_names :: "pydict \<Rightarrow> pydict \<Rightarrow> pydict" where
  "restore_names record red =
     (let red1 = (if truthy (dget record ''name'') \<and> name_tokens record < 2
            then dset red ''name'' (dget record ''name'') else red)
      in if (truthy (dget record ''first_name'') \<and> \<not> truthy (dget record ''last_name''))
            \<or> (truthy (dget record ''last_name'') \<and> \<not> truthy (dget record ''first_name''))
         then
           (let red2 = (if has_key red1 ''first_name''
                  then dset red1 ''first_name'' (dget record ''first_name'') else red1)
            in if has_key red2 ''last_name''
               then dset red2 ''last_name'' (dget record ''last_name'') else red2)
         else red1)"

definition rollback :: "pydict \<Rightarrow> pydict \<Rightarrow> pydict option" where
  "rollback record red = map_option (restore_names record) (for_items restore_email record red)"

text \<open>Each of the five tests and substitutions of the sweep reads the value \<open>v\<close> the loop
  was handed, not what an earlier substitution stored.\<close>

definition resub :: "regex \<Rightarrow> (string \<Rightarrow> string option) \<Rightarrow> string \<Rightarrow> string \<Rightarrow> pydict \<Rightarrow> pydict option" where
  "resub rx sub k v red =
     (if matches rx v then map_option (\<lambda>t. dset red k (PStr t)) (sub v) else Some red)"

definition sweep_step :: "string \<times> pyval \<Rightarrow> pydict \<Rightarrow> pydict option" where
  "sweep_step kv red =
     (if is_str (snd kv)
      then do {
        r1 \<leftarrow> resub PHONE_RE sub_phone (fst kv) (py_str (snd kv)) red;
        r2 \<leftarrow> resub AADHAR_RE sub_aadhar (fst kv) (py_str (snd kv)) r1;
        r3 \<leftarrow> resub PASSPORT_RE sub_passport (fst kv) (py_str (snd kv)) r2;
        r4 \<leftarrow> resub EMAIL_RE sub_email (fst kv) (py_str (snd kv)) r3;
        resub IPV4_RE sub_ip (fst kv) (py_str (snd kv)) r4 }
      else Some red)"

definition sweep :: "pydict \<Rightarrow> pydict option" where
  "sweep red = for_items sweep_step red red"

text \<open>\<open>json.dumps(v)\<close> succeeds on every value that \<open>json.loads\<close> produced and on every
  string, so the copy \<open>clean\<close> takes each value as it is.\<close>

definition clean :: "pydict \<Rightarrow> pydict" where
  "clean red = fold (\<lambda>kv c. dset c (fst kv) (snd kv)) red []"

definition detect_and_mask :: "pydict \<Rightarrow> (pydict \<times> bool) option" where
  "detect_and_mask record = do {
     e \<leftarrow> gather record;
     let combinatorial_pii = (2 \<le> combinatorial_count e);
     let is_pii = (standalone_found e \<or> combinatorial_pii);
     red1 \<leftarrow> (if \<not> is_pii then rollback record (redacted e) else Some (redacted e));
     red2 \<leftarrow> (if is_pii then sweep red1 else Some red1);
     Some (clean red2, is_pii) }"

section \<open>main: one output row for each input row\<close>

text \<open>
  \<open>json.dumps(d, ensure_ascii=False)\<close> of the masked record: keys and strings are quoted,
  with the quote, the backslash and the characters below 32 escaped.
\<close>

definition hex_digit :: "nat \<Rightarrow> char" where
  "hex_digit d = (if d < 10 then char_of (48 + d) else char_of (87 + d))"

definition json_escape_char :: "char \<Rightarrow> string" where
  "json_escape_char c =
     (if c = CHR ''\"'' then [CHR 0x5C, CHR ''\"'']
      else if c = CHR 0x5C then [CHR 0x5C, CHR 0x5C]
      else if code c = 8 then [CHR 0x5C, CHR ''b'']
      else if code c = 12 then [CHR 0x5C, CHR ''f'']
      else if code c = 10 then [CHR 0x5C, CHR ''n'']
      else if code c = 13 then [CHR 0x5C, CHR ''r'']
      else if code c = 9 then [CHR 0x5C, CHR ''t'']
      else if code c < 32
        then [CHR 0x5C, CHR ''u'', CHR ''0'', CHR ''0'', hex_digit (code c div 16),
              hex_digit (code c mod 16)]
      else [c])"

definition json_string :: "string \<Rightarrow> string" where
  "json_string s = [CHR ''\"''] @ concat (map json_escape_char s) @ [CHR ''\"'']"

fun json_value :: "pyval \<Rightarrow> string" where
  "json_value PNone = ''null''"
| "json_value (PBool b) = (if b then ''true'' else ''false'')"
| "json_value (PInt i) = str_int i"
| "json_value (PStr s) = json_string s"
| "json_value (POther t s j) = j"

definition json_dumps :: "pydict \<Rightarrow> string" where
  "json_dumps d =
     ''{'' @ join '', '' (map (\<lambda>kv. json_string (fst kv) @ '': '' @ json_value (snd kv)) d) @ ''}''"

text \<open>
  A row of the input is the mapping \<open>csv.DictReader\<close> yields, from column names to
  strings (a column the row lacks is \<open>None\<close>). \<open>json.loads\<close> is the library's: the model
  takes it as the parameter \<open>loads\<close>, \<open>None\<close> where it raises. It yields an object or another
  value, and on another value \<open>detect_and_mask\<close> raises: \<open>dict(record)\<close> or
  \<open>record.items()\<close> fails.
\<close>

type_synonym csv_row = "string \<rightharpoonup> string"

datatype payload = Obj pydict | NotObj

text \<open>\<open>a or b\<close> on values that are a string or \<open>None\<close>.\<close>

definition py_or :: "string option \<Rightarrow> string option \<Rightarrow> string option" where
  "py_or a b = (case a of None \<Rightarrow> b | Some s \<Rightarrow> if s \<noteq> [] then a else b)"

definition record_id_of :: "csv_row \<Rightarrow> string option" where
  "record_id_of r = py_or (r ''record_id'') (py_or (r ''recordId'') (r ''id''))"

definition data_json_raw_of :: "csv_row \<Rightarrow> string option" where
  "data_json_raw_of r =
     py_or (r ''Data_json'') (py_or (r ''data_json'') (py_or (r ''Data'') (r ''data'')))"

text \<open>\<open>s.replace("'", '"')\<close>\<close>

definition replace_quotes :: "string \<Rightarrow> string" where
  "replace_quotes s = map (\<lambda>c. if c = CHR 0x27 then CHR ''\"'' else c) s"

definition parse_payload :: "(string \<Rightarrow> payload option) \<Rightarrow> string \<Rightarrow> payload" where
  "parse_payload loads raw =
     (case loads raw of
        Some parsed \<Rightarrow> parsed
      | None \<Rightarrow> (case loads (replace_quotes raw) of Some parsed \<Rightarrow> parsed | None \<Rightarrow> Obj []))"

definition detect_payload :: "payload \<Rightarrow> (pydict \<times> bool) option" where
  "detect_payload parsed = (case parsed of Obj record \<Rightarrow> detect_and_mask record | NotObj \<Rightarrow> None)"

record out_row =
  record_id :: "string option"
  redacted_data_json :: string
  is_pii :: string

definition process_row :: "(string \<Rightarrow> payload option) \<Rightarrow> csv_row \<Rightarrow> out_row option" where
  "process_row loads r =
     (case data_json_raw_of r of
        None \<Rightarrow> Some \<lparr> record_id = record_id_of r, redacted_data_json = json_dumps [],
                        is_pii = py_str (PBool False) \<rparr>
      | Some raw \<Rightarrow> do {
          (redacted_dict, verdict) \<leftarrow> detect_payload (parse_payload loads raw);
          Some \<lparr> record_id = record_id_of r, redacted_data_json = json_dumps redacted_dict,
                 is_pii = py_str (PBool verdict) \<rparr> })"

text \<open>The loop of \<open>main\<close> over the rows: an exception in one row ends the run.\<close>

fun rows_out :: "(string \<Rightarrow> payload option) \<Rightarrow> csv_row list \<Rightarrow> out_row list option" where
  "rows_out loads [] = Some []"
| "rows_out loads (r # rs) = do { row \<leftarrow> process_row loads r; rest \<leftarrow> rows_out loads rs; Some (row # rest) }"

section \<open>Predicates of the properties\<close>

text \<open>No recognizer matches a value: it is not a string, or none of the six patterns is
  found in it.\<close>

definition no_pattern :: "pyval \<Rightarrow> bool" where
  "no_pattern v =
     (\<not> (is_str v \<and> (matches PHONE_RE (py_str v) \<or> matches AADHAR_RE (py_str v)
        \<or> matches PASSPORT_RE (py_str v) \<or> matches UPI_RE (py_str v)
        \<or> matches EMAIL_RE (py_str v) \<or> matches IPV4_RE (py_str v))))"

text \<open>The rule of a known field fires on the record: the conditions under which the rules on
  \<open>phone\<close>, \<open>contact\<close>, \<open>upi_id\<close>, the names, the address and the device fields store into
  that field.\<close>

definition address_fires :: "pydict \<Rightarrow> bool" where
  "address_fires record =
     (truthy (dget record ''address'') \<and> truthy (dget record ''city'')
      \<and> truthy (dget record ''pin_code'')
      \<and> 5 \<le> length (re_sub NONDIGIT_RE (\<lambda>m. []) (py_str (dget record ''pin_code''))))"

definition rule_fires :: "pydict \<Rightarrow> string \<Rightarrow> bool" where
  "rule_fires record k =
     (((k = ''phone'' \<or> k = ''contact'') \<and> truthy (dget record k)
          \<and> matches PHONE_RE (py_str (dget record k)))
      \<or> (k = ''upi_id'' \<and> truthy (dget record k) \<and> matches UPI_RE (py_str (dget record k)))
      \<or> ((k = ''first_name'' \<or> k = ''last_name'') \<and> both_names record)
      \<or> (k = ''name'' \<and> truthy (dget record k) \<and> (both_names record \<or> 2 \<le> name_tokens record))
      \<or> ((k = ''address'' \<or> k = ''pin_code'') \<and> address_fires record)
      \<or> ((k = ''device_id'' \<or> k = ''ip_address'') \<and> truthy (dget record k)))"

text \<open>The number of flags that are true.\<close>

definition count_true :: "bool list \<Rightarrow> nat" where
  "count_true bs = length (filter (\<lambda>b. b) bs)"

text \<open>A dictionary with distinct keys holds \<open>v\<close> under \<open>k\<close>.\<close>

definition keeps :: "string \<Rightarrow> pyval \<Rightarrow> pydict \<Rightarrow> bool" where
  "keeps k v d = (distinct (map fst d) \<and> map_of d k = Some v)"

text \<open>What \<open>detect_and_mask\<close> returned: the verdict, and the value of a field of the
  output.\<close>

definition verdict_of :: "(pydict \<times> bool) option \<Rightarrow> bool option" where
  "verdict_of res = map_option snd res"

definition out_field :: "(pydict \<times> bool) option \<Rightarrow> string \<Rightarrow> pyval option" where
  "out_field res k = (case res of None \<Rightarrow> None | Some outv \<Rightarrow> map_of (fst outv) k)"

section \<open>The matcher: every way is a split of the input, with the pattern's groups\<close>

lemma greedy_props:
  "(m, r) \<in> set (greedy lo hi P s) \<Longrightarrow> s = m @ r \<and> lo \<le> length m \<and> (\<forall>c\<in>set m. P c)"
  apply (induction s arbitrary: lo hi m r)
   apply (simp split: if_splits)
  apply (auto split: if_splits)
     apply fastforce+
  done

lemma rmatch_app: "(g, m, r) \<in> set (rmatch rx p s) \<Longrightarrow> s = m @ r"
proof (induction rx arbitrary: p s g m r)
  case (Seq a b)
  from Seq.prems obtain g1 m1 r1 g2 m2 where
    a: "(g1, m1, r1) \<in> set (rmatch a p s)" and
    b: "(g2, m2, r) \<in> set (rmatch b (prev_after p m1) r1)" and m: "m = m1 @ m2"
    by auto
  from Seq.IH(1)[OF a] Seq.IH(2)[OF b] m show ?case by simp
qed (auto split: list.splits if_splits dest: greedy_props)

lemma rmatch_ngroups: "(g, m, r) \<in> set (rmatch rx p s) \<Longrightarrow> length g = ngroups rx"
proof (induction rx arbitrary: p s g m r)
  case (Seq a b)
  from Seq.prems obtain g1 m1 r1 g2 m2 where
    a: "(g1, m1, r1) \<in> set (rmatch a p s)" and
    b: "(g2, m2, r) \<in> set (rmatch b (prev_after p m1) r1)" and g: "g = g1 @ g2"
    by auto
  from Seq.IH(1)[OF a] Seq.IH(2)[OF b] g show ?case by simp
qed (auto split: list.splits if_splits)

lemma search_from_way:
  "search_from rx p s = Some (g, m) \<Longrightarrow> \<exists>p' s' r. (g, m, r) \<in> set (rmatch rx p' s')"
proof (induction s arbitrary: p)
  case Nil
  then have "\<exists>r ws. rmatch rx p [] = (g, m, r) # ws" by (auto split: list.splits)
  then show ?case by (metis list.set_intros(1))
next
  case (Cons x xs)
  show ?case
  proof (cases "rmatch rx p (x # xs)")
    case Nil
    with Cons show ?thesis by simp
  next
    case (Cons w ws)
    with Cons.prems have "\<exists>r. w = (g, m, r)" by (auto split: prod.splits)
    with Cons show ?thesis by (metis list.set_intros(1))
  qed
qed

lemma sub_try_total:
  "(\<And>g m. Mat g m \<in> set segs \<Longrightarrow> f (g, m) \<noteq> None) \<Longrightarrow> \<exists>t. sub_try f segs = Some t"
proof (induction segs)
  case Nil
  then show ?case by simp
next
  case (Cons a segs)
  then obtain t where t: "sub_try f segs = Some t" by auto
  show ?case
  proof (cases a)
    case (Lit c)
    with t show ?thesis by simp
  next
    case (Mat g m)
    with Cons.prems obtain u where "f (g, m) = Some u" by auto
    with t Mat show ?thesis by simp
  qed
qed


lemma ng: "ngroups PHONE_RE = 1" "ngroups AADHAR_RE = 1" "ngroups PASSPORT_RE = 1" "ngroups IPV4_RE = 1"
  "ngroups EMAIL_RE = 2" "ngroups UPI_RE = 2"
  by (simp_all add: PHONE_RE_def AADHAR_RE_def PASSPORT_RE_def IPV4_RE_def EMAIL_RE_def UPI_RE_def lit_def numeral_3_eq_3)

lemma rmatch_SeqE:
  assumes "(g, m, r) \<in> set (rmatch (Seq a b) p s)"
  obtains g1 m1 r1 g2 m2 where "(g1, m1, r1) \<in> set (rmatch a p s)"
    "(g2, m2, r) \<in> set (rmatch b (prev_after p m1) r1)" "g = g1 @ g2" "m = m1 @ m2"
  using assms by auto

lemma rmatch_WordB_groups: "(g, m, r) \<in> set (rmatch WordB p s) \<Longrightarrow> g = []"
  by (simp split: if_splits)

lemma rmatch_Grp_Rep:
  "(g, m, r) \<in> set (rmatch (Grp (Rep (Suc lo) hi P)) p s) \<Longrightarrow> \<exists>l. g = [l] \<and> l \<noteq> []"
  by (auto dest!: greedy_props)

lemma first_group_nonempty:
  assumes "(g, m, r) \<in> set (rmatch (Seq WordB (Seq (Grp (Rep (Suc lo) hi P)) b)) p s)"
  shows "\<exists>l g'. g = l # g' \<and> l \<noteq> []"
proof -
  from assms obtain g1 m1 r1 g2 m2 where
    w: "(g1, m1, r1) \<in> set (rmatch WordB p s)" and
    rest: "(g2, m2, r) \<in> set (rmatch (Seq (Grp (Rep (Suc lo) hi P)) b) (prev_after p m1) r1)" and
    g: "g = g1 @ g2"
    by (rule rmatch_SeqE)
  from rest obtain g3 m3 r3 g4 m4 where
    grp: "(g3, m3, r3) \<in> set (rmatch (Grp (Rep (Suc lo) hi P)) (prev_after p m1) r1)" and
    g2: "g2 = g3 @ g4"
    by (rule rmatch_SeqE)
  from rmatch_Grp_Rep[OF grp] obtain l where "g3 = [l]" "l \<noteq> []" by blast
  with g g2 rmatch_WordB_groups[OF w] show ?thesis by simp
qed

lemma email_way:
  assumes "(g, m, r) \<in> set (rmatch EMAIL_RE p s)"
  shows "\<exists>l d. g = [l, d] \<and> l \<noteq> []"
proof -
  from assms have "\<exists>l g'. g = l # g' \<and> l \<noteq> []"
    unfolding EMAIL_RE_def One_nat_def by (rule first_group_nonempty)
  moreover from rmatch_ngroups[OF assms] have "length g = 2" by (simp add: ng)
  ultimately show ?thesis by (auto simp: length_Suc_conv numeral_2_eq_2)
qed

lemma upi_way:
  assumes "(g, m, r) \<in> set (rmatch UPI_RE p s)"
  shows "\<exists>l d. g = [l, d] \<and> l \<noteq> []"
proof -
  from assms have "\<exists>l g'. g = l # g' \<and> l \<noteq> []"
    unfolding UPI_RE_def numeral_2_eq_2 by (rule first_group_nonempty)
  moreover from rmatch_ngroups[OF assms] have "length g = 2" by (simp add: ng)
  ultimately show ?thesis by (auto simp: length_Suc_conv numeral_2_eq_2)
qed

lemma scan_way:
  "Mat g m \<in> set (scan rx n p s) \<Longrightarrow> \<exists>p' s' r. (g, m, r) \<in> set (rmatch rx p' s')"
proof (induction s arbitrary: n p)
  case Nil
  then have "\<exists>r ws. rmatch rx p [] = (g, m, r) # ws" by (auto split: list.splits if_splits)
  then show ?case by (metis list.set_intros(1))
next
  case (Cons x xs)
  show ?case
  proof (cases "0 < n")
    case True
    with Cons show ?thesis by simp
  next
    case n0: False
    show ?thesis
    proof (cases "rmatch rx p (x # xs)")
      case Nil
      with Cons n0 show ?thesis by auto
    next
      case (Cons w ws)
      obtain g1 m1 r1 where w: "w = (g1, m1, r1)" by (cases w)
      have in1: "(g1, m1, r1) \<in> set (rmatch rx p (x # xs))" using Cons w by simp
      show ?thesis
      proof (cases "m1 = []")
        case False
        with Cons.prems n0 Cons w have "Mat g m = Mat g1 m1 \<or> Mat g m \<in> set (scan rx (length m1 - 1) (Some x) xs)"
          by simp
        with in1 Cons.IH show ?thesis by blast
      next
        case True
        show ?thesis
        proof (cases "filter (\<lambda>(g', m', r'). m' \<noteq> []) ws")
          case Nil
          with Cons.prems n0 Cons w True have "Mat g m = Mat g1 m1 \<or> Mat g m \<in> set (scan rx 0 (Some x) xs)"
            by simp
          with in1 Cons.IH show ?thesis by blast
        next
          case (Cons w2 ws2)
          obtain g2 m2 r2 where w2: "w2 = (g2, m2, r2)" by (cases w2)
          have "w2 \<in> set (filter (\<lambda>(g', m', r'). m' \<noteq> []) ws)" using Cons by simp
          then have in2: "(g2, m2, r2) \<in> set (rmatch rx p (x # xs))"
            using \<open>rmatch rx p (x # xs) = w # ws\<close> w2 by simp
          from Cons.prems n0 \<open>rmatch rx p (x # xs) = w # ws\<close> w True Cons w2
          have "Mat g m = Mat g1 m1 \<or> Mat g m = Mat g2 m2
                \<or> Mat g m \<in> set (scan rx (length m2 - 1) (Some x) xs)"
            by simp
          with in1 in2 Cons.IH show ?thesis by blast
        qed
      qed
    qed
  qed
qed

section \<open>No masker and no substitution raises\<close>

lemma group_zero: "group gm 0 = Some (snd gm)"
  by (simp add: group_def)

lemma group_one: "group (l # g, m) (Suc 0) = Some l"
  by (simp add: group_def)

lemma group_two: "group (l # d # g, m) 2 = Some d"
  by (simp add: group_def)

lemma one_group:
  assumes "(g, m, r) \<in> set (rmatch rx p s)" and "ngroups rx = 1"
  shows "\<exists>l. g = [l]"
  using rmatch_ngroups[OF assms(1)] assms(2) by (cases g) auto

lemma mask_local_total: "l \<noteq> [] \<Longrightarrow> \<exists>t. mask_local l = Some t"
  by (cases l) (simp_all add: mask_local_def)

lemma mask_email_total: "\<exists>t. mask_email e = Some t"
proof (cases "re_search EMAIL_RE e")
  case None
  then show ?thesis by (simp add: mask_email_def)
next
  case (Some gm)
  obtain g m where gm: "gm = (g, m)" by (cases gm)
  from Some gm search_from_way[of EMAIL_RE None e g m] obtain p' s' r
    where "(g, m, r) \<in> set (rmatch EMAIL_RE p' s')" by (auto simp: re_search_def)
  from email_way[OF this] obtain l d where g: "g = [l, d]" and l: "l \<noteq> []" by blast
  from mask_local_total[OF l] obtain t where "mask_local l = Some t" by blast
  with Some gm g show ?thesis by (simp add: mask_email_def group_one group_two)
qed

lemma mask_upi_total: "\<exists>t. mask_upi u = Some t"
proof (cases "re_search UPI_RE u")
  case None
  then show ?thesis by (simp add: mask_upi_def)
next
  case (Some gm)
  obtain g m where gm: "gm = (g, m)" by (cases gm)
  from Some gm search_from_way[of UPI_RE None u g m] obtain p' s' r
    where "(g, m, r) \<in> set (rmatch UPI_RE p' s')" by (auto simp: re_search_def)
  from upi_way[OF this] obtain l d where g: "g = [l, d]" and l: "l \<noteq> []" by blast
  from mask_local_total[OF l] obtain t where "mask_local l = Some t" by blast
  with Some gm g show ?thesis by (simp add: mask_upi_def group_one group_two)
qed

lemma search_one_group:
  assumes "re_search rx s = Some gm" and "ngroups rx = 1"
  shows "\<exists>l. group gm 1 = Some l"
proof -
  obtain g m where gm: "gm = (g, m)" by (cases gm)
  from assms(1) gm search_from_way[of rx None s g m] obtain p' s' r
    where "(g, m, r) \<in> set (rmatch rx p' s')" by (auto simp: re_search_def)
  from one_group[OF this assms(2)] gm show ?thesis by (auto simp: group_one)
qed

lemma mask_passport_total: "\<exists>t. mask_passport p = Some t"
proof (cases "re_search PASSPORT_RE p")
  case None
  then show ?thesis by (simp add: mask_passport_def)
next
  case (Some gm)
  from search_one_group[OF Some ng(3)] obtain l where "group gm 1 = Some l" by blast
  with Some show ?thesis by (simp add: mask_passport_def)
qed

lemma mask_ip_total: "\<exists>t. mask_ip p = Some t"
proof (cases "re_search IPV4_RE p")
  case None
  then show ?thesis by (simp add: mask_ip_def)
next
  case (Some gm)
  from search_one_group[OF Some ng(4)] obtain l where "group gm 1 = Some l" by blast
  with Some show ?thesis by (simp add: mask_ip_def Let_def)
qed

lemma re_sub_try_total:
  assumes "\<And>g m p s r. (g, m, r) \<in> set (rmatch rx p s) \<Longrightarrow> f (g, m) \<noteq> None"
  shows "\<exists>t. re_sub_try rx f v = Some t"
  unfolding re_sub_try_def
proof (rule sub_try_total)
  fix g m assume "Mat g m \<in> set (scan rx 0 None v)"
  from scan_way[OF this] assms show "f (g, m) \<noteq> None" by blast
qed

lemma sub_phone_total: "\<exists>t. sub_phone v = Some t"
  unfolding sub_phone_def
  by (rule re_sub_try_total) (auto dest!: one_group simp: ng group_one)

lemma sub_aadhar_total: "\<exists>t. sub_aadhar v = Some t"
  unfolding sub_aadhar_def
  by (rule re_sub_try_total) (auto dest!: one_group simp: ng group_one)

lemma sub_passport_total: "\<exists>t. sub_passport v = Some t"
  unfolding sub_passport_def
proof (rule re_sub_try_total)
  fix g m p s r assume "(g, m, r) \<in> set (rmatch PASSPORT_RE p s)"
  from one_group[OF this ng(3)] obtain l where "g = [l]" by blast
  with mask_passport_total[of l] show "group (g, m) 1 \<bind> mask_passport \<noteq> None"
    by (auto simp: group_one)
qed

lemma sub_ip_total: "\<exists>t. sub_ip v = Some t"
  unfolding sub_ip_def
proof (rule re_sub_try_total)
  fix g m p s r assume "(g, m, r) \<in> set (rmatch IPV4_RE p s)"
  from one_group[OF this ng(4)] obtain l where "g = [l]" by blast
  with mask_ip_total[of l] show "group (g, m) 1 \<bind> mask_ip \<noteq> None"
    by (auto simp: group_one)
qed

lemma sub_email_total: "\<exists>t. sub_email v = Some t"
  unfolding sub_email_def
proof (rule re_sub_try_total)
  fix g m p s r
  from mask_email_total[of m] show "group (g, m) 0 \<bind> mask_email \<noteq> None"
    by (auto simp: group_zero)
qed

lemma sub_upi_total: "\<exists>t. sub_upi v = Some t"
  unfolding sub_upi_def
proof (rule re_sub_try_total)
  fix g m p s r
  from mask_upi_total[of m] show "group (g, m) 0 \<bind> mask_upi \<noteq> None"
    by (auto simp: group_zero)
qed

section \<open>What a step of a loop leaves alone\<close>

lemma map_of_dset: "map_of (dset d k t) = (map_of d)(k \<mapsto> t)"
  by (induction d) (auto simp: fun_eq_iff)

lemma keys_set_dset: "fst ` set (dset d k t) = insert k (fst ` set d)"
  by (simp add: dom_map_of_conv_image_fst[symmetric] map_of_dset)

lemma distinct_dset: "distinct (map fst d) \<Longrightarrow> distinct (map fst (dset d k t))"
  by (induction d) (auto simp: keys_set_dset)

lemma keeps_dset_other: "k \<noteq> k' \<Longrightarrow> keeps k v d \<Longrightarrow> keeps k v (dset d k' t)"
  by (simp add: keeps_def distinct_dset map_of_dset)

lemma for_items_frame:
  assumes "\<And>kv a. kv \<in> set items \<Longrightarrow>
     \<exists>b. f kv a = Some b \<and> (no_pattern (snd kv) \<longrightarrow> b = a)
        \<and> (\<forall>k v. k \<noteq> fst kv \<longrightarrow> keeps k v (proj a) \<longrightarrow> keeps k v (proj b))"
  shows "\<exists>b. for_items f items a = Some b
     \<and> (\<forall>k v. (\<forall>v'. (k, v') \<in> set items \<longrightarrow> no_pattern v') \<longrightarrow> keeps k v (proj a)
            \<longrightarrow> keeps k v (proj b))"
  using assms
proof (induction items arbitrary: a)
  case Nil
  then show ?case by simp
next
  case (Cons kv kvs)
  from Cons.prems[of kv a] obtain b where b: "f kv a = Some b"
    and same: "no_pattern (snd kv) \<longrightarrow> b = a"
    and other: "\<forall>k v. k \<noteq> fst kv \<longrightarrow> keeps k v (proj a) \<longrightarrow> keeps k v (proj b)"
    by auto
  have "\<And>kv' a'. kv' \<in> set kvs \<Longrightarrow>
     \<exists>b. f kv' a' = Some b \<and> (no_pattern (snd kv') \<longrightarrow> b = a')
        \<and> (\<forall>k v. k \<noteq> fst kv' \<longrightarrow> keeps k v (proj a') \<longrightarrow> keeps k v (proj b))"
    using Cons.prems by simp
  from Cons.IH[OF this, of b] obtain c where c: "for_items f kvs b = Some c"
    and frame: "\<forall>k v. (\<forall>v'. (k, v') \<in> set kvs \<longrightarrow> no_pattern v') \<longrightarrow> keeps k v (proj b)
            \<longrightarrow> keeps k v (proj c)"
    by blast
  have "\<forall>k v. (\<forall>v'. (k, v') \<in> set (kv # kvs) \<longrightarrow> no_pattern v') \<longrightarrow> keeps k v (proj a)
            \<longrightarrow> keeps k v (proj c)"
  proof (intro allI impI)
    fix k v
    assume np: "\<forall>v'. (k, v') \<in> set (kv # kvs) \<longrightarrow> no_pattern v'" and ka: "keeps k v (proj a)"
    have "keeps k v (proj b)"
    proof (cases "k = fst kv")
      case True
      then have "(k, snd kv) \<in> set (kv # kvs)" by simp
      with np have "no_pattern (snd kv)" by blast
      with same ka show ?thesis by simp
    next
      case False
      with other ka show ?thesis by blast
    qed
    moreover from np have "\<forall>v'. (k, v') \<in> set kvs \<longrightarrow> no_pattern v'" by simp
    ultimately show "keeps k v (proj c)" using frame by blast
  qed
  with b c show ?case by simp
qed

lemma frame_same:
  "\<exists>b. Some a = Some b \<and> (np \<longrightarrow> b = a)
        \<and> (\<forall>k v. k \<noteq> k' \<longrightarrow> keeps k v (proj a) \<longrightarrow> keeps k v (proj b))"
  by simp

lemma frame_set:
  assumes "\<not> np" and "proj b = dset (proj a) k' t"
  shows "\<exists>c. Some b = Some c \<and> (np \<longrightarrow> c = a)
        \<and> (\<forall>k v. k \<noteq> k' \<longrightarrow> keeps k v (proj a) \<longrightarrow> keeps k v (proj c))"
  using assms by (simp add: keeps_dset_other)

lemma phone_step_frame:
  "\<exists>b. phone_step kv a = Some b \<and> (no_pattern (snd kv) \<longrightarrow> b = a)
        \<and> (\<forall>k v. k \<noteq> fst kv \<longrightarrow> keeps k v (fst a) \<longrightarrow> keeps k v (fst b))"
proof (cases "is_str (snd kv) \<and> matches PHONE_RE (py_str (snd kv))")
  case False
  then have "phone_step kv a = Some a" by (auto simp: phone_step_def)
  then show ?thesis using frame_same[of a _ _ fst] by simp
next
  case True
  then have np: "\<not> no_pattern (snd kv)" by (simp add: no_pattern_def)
  obtain t where t: "sub_phone (py_str (snd kv)) = Some t" using sub_phone_total by blast
  show ?thesis
  proof (cases "\<not> has_key (fst a) (fst kv)
              \<or> CHR ''X'' \<notin> set (py_str (dget_default (fst a) (fst kv) (PStr [])))")
    case False
    with True have "phone_step kv a = Some a" by (auto simp: phone_step_def)
    then show ?thesis using frame_same[of a _ _ fst] by simp
  next
    case c: True
    with True t have "phone_step kv a = Some (dset (fst a) (fst kv) (PStr t), True)"
      unfolding phone_step_def by simp
    then show ?thesis
      using frame_set[OF np, of fst "(dset (fst a) (fst kv) (PStr t), True)" a "fst kv" "PStr t"]
      by simp
  qed
qed

lemma aadhar_step_frame:
  "\<exists>b. aadhar_step kv a = Some b \<and> (no_pattern (snd kv) \<longrightarrow> b = a)
        \<and> (\<forall>k v. k \<noteq> fst kv \<longrightarrow> keeps k v (fst a) \<longrightarrow> keeps k v (fst b))"
proof (cases "is_str (snd kv) \<and> matches AADHAR_RE (py_str (snd kv))")
  case False
  then have "aadhar_step kv a = Some a" by (auto simp: aadhar_step_def)
  then show ?thesis using frame_same[of a _ _ fst] by simp
next
  case True
  then have np: "\<not> no_pattern (snd kv)" by (simp add: no_pattern_def)
  obtain t where t: "sub_aadhar (py_str (snd kv)) = Some t" using sub_aadhar_total by blast
  with True have "aadhar_step kv a = Some (dset (fst a) (fst kv) (PStr t), True)"
    unfolding aadhar_step_def by simp
  then show ?thesis
    using frame_set[OF np, of fst "(dset (fst a) (fst kv) (PStr t), True)" a "fst kv" "PStr t"]
    by simp
qed

lemma passport_step_frame:
  "\<exists>b. passport_step kv a = Some b \<and> (no_pattern (snd kv) \<longrightarrow> b = a)
        \<and> (\<forall>k v. k \<noteq> fst kv \<longrightarrow> keeps k v (fst a) \<longrightarrow> keeps k v (fst b))"
proof (cases "is_str (snd kv) \<and> matches PASSPORT_RE (py_str (snd kv))")
  case False
  then have "passport_step kv a = Some a" by (auto simp: passport_step_def)
  then show ?thesis using frame_same[of a _ _ fst] by simp
next
  case True
  then have np: "\<not> no_pattern (snd kv)" by (simp add: no_pattern_def)
  obtain t where t: "sub_passport (py_str (snd kv)) = Some t" using sub_passport_total by blast
  with True have "passport_step kv a = Some (dset (fst a) (fst kv) (PStr t), True)"
    unfolding passport_step_def by simp
  then show ?thesis
    using frame_set[OF np, of fst "(dset (fst a) (fst kv) (PStr t), True)" a "fst kv" "PStr t"]
    by simp
qed

lemma email_step_frame:
  "\<exists>b. email_step kv a = Some b \<and> (no_pattern (snd kv) \<longrightarrow> b = a)
        \<and> (\<forall>k v. k \<noteq> fst kv \<longrightarrow> keeps k v (fst a) \<longrightarrow> keeps k v (fst b))"
proof (cases "is_str (snd kv) \<and> matches EMAIL_RE (py_str (snd kv))")
  case False
  then have "email_step kv a = Some a" by (auto simp: email_step_def)
  then show ?thesis using frame_same[of a _ _ fst] by simp
next
  case True
  then have np: "\<not> no_pattern (snd kv)" by (simp add: no_pattern_def)
  obtain t where t: "sub_email (py_str (snd kv)) = Some t" using sub_email_total by blast
  with True have "email_step kv a = Some (dset (fst a) (fst kv) (PStr t), True)"
    unfolding email_step_def by simp
  then show ?thesis
    using frame_set[OF np, of fst "(dset (fst a) (fst kv) (PStr t), True)" a "fst kv" "PStr t"]
    by simp
qed

lemma after_first_total: "d \<in> set v \<Longrightarrow> \<exists>rhs. after_first d v = Some rhs"
  by (induction v) (auto simp: after_first_def)

lemma upi_step_frame:
  "\<exists>b. upi_step kv a = Some b \<and> (no_pattern (snd kv) \<longrightarrow> b = a)
        \<and> (\<forall>k v. k \<noteq> fst kv \<longrightarrow> keeps k v (fst a) \<longrightarrow> keeps k v (fst b))"
proof (cases "is_str (snd kv) \<and> CHR ''@'' \<in> set (py_str (snd kv)) \<and> matches UPI_RE (py_str (snd kv))")
  case False
  then have "upi_step kv a = Some a" by (auto simp: upi_step_def)
  then show ?thesis using frame_same[of a _ _ fst] by simp
next
  case True
  then obtain rhs where rhs: "after_first CHR ''@'' (py_str (snd kv)) = Some rhs"
    using after_first_total by blast
  from True have np: "\<not> no_pattern (snd kv)" by (simp add: no_pattern_def)
  obtain t where t: "sub_upi (py_str (snd kv)) = Some t" using sub_upi_total by blast
  show ?thesis
  proof (cases "CHR ''.'' \<notin> set rhs")
    case False
    with True rhs have "upi_step kv a = Some a" by (simp add: upi_step_def)
    then show ?thesis using frame_same[of a _ _ fst] by simp
  next
    case c: True
    with True rhs t have "upi_step kv a = Some (dset (fst a) (fst kv) (PStr t), True)"
      by (simp add: upi_step_def)
    then show ?thesis
      using frame_set[OF np, of fst "(dset (fst a) (fst kv) (PStr t), True)" a "fst kv" "PStr t"]
      by simp
  qed
qed

lemma restore_email_frame:
  "\<exists>b. restore_email kv a = Some b \<and> (no_pattern (snd kv) \<longrightarrow> b = a)
        \<and> (\<forall>k v. k \<noteq> fst kv \<longrightarrow> keeps k v a \<longrightarrow> keeps k v b)"
proof (cases "is_str (snd kv) \<and> matches EMAIL_RE (py_str (snd kv)) \<and> has_key a (fst kv)")
  case False
  then have "restore_email kv a = Some a" by (auto simp: restore_email_def)
  then show ?thesis using frame_same[of a _ _ "\<lambda>d. d"] by simp
next
  case True
  then have np: "\<not> no_pattern (snd kv)" by (simp add: no_pattern_def)
  from True have "restore_email kv a = Some (dset a (fst kv) (snd kv))"
    by (simp add: restore_email_def)
  then show ?thesis
    using frame_set[OF np, of "\<lambda>d. d" "dset a (fst kv) (snd kv)" a "fst kv" "snd kv"] by simp
qed

lemma resub_frame:
  assumes "\<And>v. \<exists>t. sub v = Some t"
  shows "\<exists>b. resub rx sub k' s a = Some b \<and> (\<not> matches rx s \<longrightarrow> b = a)
        \<and> (\<forall>k v. k \<noteq> k' \<longrightarrow> keeps k v a \<longrightarrow> keeps k v b)"
proof (cases "matches rx s")
  case False
  then show ?thesis by (simp add: resub_def)
next
  case True
  from assms[of s] obtain t where "sub s = Some t" by blast
  with True show ?thesis by (simp add: resub_def keeps_dset_other)
qed

lemma sweep_step_frame:
  "\<exists>b. sweep_step kv a = Some b \<and> (no_pattern (snd kv) \<longrightarrow> b = a)
        \<and> (\<forall>k v. k \<noteq> fst kv \<longrightarrow> keeps k v a \<longrightarrow> keeps k v b)"
proof (cases "is_str (snd kv)")
  case False
  then show ?thesis by (simp add: sweep_step_def)
next
  case True
  let ?s = "py_str (snd kv)" and ?k = "fst kv"
  from resub_frame[of sub_phone PHONE_RE ?k ?s a] sub_phone_total obtain r1 where
    r1: "resub PHONE_RE sub_phone ?k ?s a = Some r1" "\<not> matches PHONE_RE ?s \<longrightarrow> r1 = a"
      "\<forall>k v. k \<noteq> ?k \<longrightarrow> keeps k v a \<longrightarrow> keeps k v r1" by blast
  from resub_frame[of sub_aadhar AADHAR_RE ?k ?s r1] sub_aadhar_total obtain r2 where
    r2: "resub AADHAR_RE sub_aadhar ?k ?s r1 = Some r2" "\<not> matches AADHAR_RE ?s \<longrightarrow> r2 = r1"
      "\<forall>k v. k \<noteq> ?k \<longrightarrow> keeps k v r1 \<longrightarrow> keeps k v r2" by blast
  from resub_frame[of sub_passport PASSPORT_RE ?k ?s r2] sub_passport_total obtain r3 where
    r3: "resub PASSPORT_RE sub_passport ?k ?s r2 = Some r3" "\<not> matches PASSPORT_RE ?s \<longrightarrow> r3 = r2"
      "\<forall>k v. k \<noteq> ?k \<longrightarrow> keeps k v r2 \<longrightarrow> keeps k v r3" by blast
  from resub_frame[of sub_email EMAIL_RE ?k ?s r3] sub_email_total obtain r4 where
    r4: "resub EMAIL_RE sub_email ?k ?s r3 = Some r4" "\<not> matches EMAIL_RE ?s \<longrightarrow> r4 = r3"
      "\<forall>k v. k \<noteq> ?k \<longrightarrow> keeps k v r3 \<longrightarrow> keeps k v r4" by blast
  from resub_frame[of sub_ip IPV4_RE ?k ?s r4] sub_ip_total obtain r5 where
    r5: "resub IPV4_RE sub_ip ?k ?s r4 = Some r5" "\<not> matches IPV4_RE ?s \<longrightarrow> r5 = r4"
      "\<forall>k v. k \<noteq> ?k \<longrightarrow> keeps k v r4 \<longrightarrow> keeps k v r5" by blast
  have run: "sweep_step kv a = Some r5"
    using True r1(1) r2(1) r3(1) r4(1) r5(1) by (simp add: sweep_step_def)
  have same: "no_pattern (snd kv) \<longrightarrow> r5 = a"
  proof
    assume "no_pattern (snd kv)"
    with True have "\<not> matches PHONE_RE ?s" "\<not> matches AADHAR_RE ?s" "\<not> matches PASSPORT_RE ?s"
      "\<not> matches EMAIL_RE ?s" "\<not> matches IPV4_RE ?s" by (simp_all add: no_pattern_def)
    with r1(2) r2(2) r3(2) r4(2) r5(2) show "r5 = a" by simp
  qed
  have other: "\<forall>k v. k \<noteq> ?k \<longrightarrow> keeps k v a \<longrightarrow> keeps k v r5"
  proof (intro allI impI)
    fix k v assume k: "k \<noteq> ?k" and "keeps k v a"
    with r1(3) have "keeps k v r1" by blast
    with r2(3) k have "keeps k v r2" by blast
    with r3(3) k have "keeps k v r3" by blast
    with r4(3) k have "keeps k v r4" by blast
    with r5(3) k show "keeps k v r5" by blast
  qed
  from run same other show ?thesis by blast
qed

section \<open>What the rules on the known fields leave alone, and the whole run\<close>

lemma keeps_unique: "keeps k v d \<Longrightarrow> (k, v') \<in> set d \<Longrightarrow> v' = v"
  by (auto simp: keeps_def)

lemma keeps_dset_restore:
  "keeps k v d \<Longrightarrow> dget record k = v \<Longrightarrow> keeps k v (dset d k' (dget record k'))"
  by (cases "k = k'") (auto simp: keeps_def distinct_dset map_of_dset)

lemma dset_fresh: "k \<notin> fst ` set d \<Longrightarrow> dset d k v = d @ [(k, v)]"
  by (induction d) auto

lemma fold_dset_append:
  "distinct (map fst (acc @ red)) \<Longrightarrow> fold (\<lambda>kv c. dset c (fst kv) (snd kv)) red acc = acc @ red"
proof (induction red arbitrary: acc)
  case Nil
  then show ?case by simp
next
  case (Cons kv red)
  then have "fst kv \<notin> fst ` set acc" by auto
  then have "dset acc (fst kv) (snd kv) = acc @ [kv]" by (simp add: dset_fresh)
  moreover from Cons.prems have "distinct (map fst ((acc @ [kv]) @ red))" by simp
  ultimately show ?case using Cons.IH[of "acc @ [kv]"] by simp
qed

lemma clean_distinct: "distinct (map fst red) \<Longrightarrow> clean red = red"
  using fold_dset_append[of "[]" red] by (simp add: clean_def)

lemma phone_field_frame:
  assumes "f = ''phone'' \<or> f = ''contact''" and "\<not> rule_fires record k" and "keeps k v (fst st)"
  shows "keeps k v (fst (phone_field record f st))"
proof (cases "has_key record f \<and> truthy (dget record f) \<and> matches PHONE_RE (py_str (dget record f))")
  case False
  with assms(3) show ?thesis by (auto simp: phone_field_def)
next
  case True
  with assms(1,2) have "k \<noteq> f" by (auto simp: rule_fires_def)
  with True assms(3) show ?thesis by (simp add: phone_field_def keeps_dset_other)
qed

lemma phone_fields_frame:
  assumes "\<not> rule_fires record k" and "keeps k v (fst st)"
  shows "keeps k v (fst (phone_fields record st))"
  unfolding phone_fields_def using assms
  by (simp add: phone_field_frame)

lemma upi_rule_frame:
  "\<exists>b. upi_rule record st = Some b
     \<and> ((\<forall>v'. (k, v') \<in> set record \<longrightarrow> no_pattern v') \<longrightarrow> \<not> rule_fires record k
          \<longrightarrow> keeps k v (fst st) \<longrightarrow> keeps k v (fst b))"
proof (cases "has_key record ''upi_id'' \<and> truthy (dget record ''upi_id'')")
  case False
  then have eq: "upi_rule record st = for_items upi_step record st" by (auto simp: upi_rule_def)
  from for_items_frame[of "record" upi_step fst st, OF upi_step_frame]
  show ?thesis unfolding eq by blast
next
  case True
  show ?thesis
  proof (cases "matches UPI_RE (py_str (dget record ''upi_id''))")
    case False
    with True show ?thesis by (simp add: upi_rule_def)
  next
    case m: True
    obtain t where t: "mask_upi (py_str (dget record ''upi_id'')) = Some t"
      using mask_upi_total by blast
    from True m have "\<not> rule_fires record k \<longrightarrow> k \<noteq> ''upi_id''" by (auto simp: rule_fires_def)
    with True m t show ?thesis by (auto simp: upi_rule_def keeps_dset_other)
  qed
qed

lemma name_rule_frame:
  assumes "\<not> rule_fires record k" and "keeps k v red"
  shows "keeps k v (fst (name_rule record red))"
proof -
  from assms(1) have a: "both_names record \<Longrightarrow> k \<noteq> ''first_name'' \<and> k \<noteq> ''last_name''"
    by (auto simp: rule_fires_def)
  from assms(1) have b: "both_names record \<or> 2 \<le> name_tokens record \<Longrightarrow>
      truthy (dget record ''name'') \<Longrightarrow> k \<noteq> ''name''"
    by (auto simp: rule_fires_def)
  show ?thesis
    using a b assms(2) by (simp add: name_rule_def Let_def keeps_dset_other)
qed

lemma address_rule_frame:
  assumes "\<not> rule_fires record k" and "keeps k v red"
  shows "keeps k v (fst (address_rule record red))"
proof -
  from assms(1) have a: "address_fires record \<Longrightarrow> k \<noteq> ''address'' \<and> k \<noteq> ''pin_code''"
    by (auto simp: rule_fires_def)
  show ?thesis
    using a assms(2) by (simp add: address_rule_def address_fires_def Let_def keeps_dset_other)
qed

lemma device_rule_frame:
  "\<exists>b. device_rule record red = Some b
     \<and> (\<not> rule_fires record k \<longrightarrow> keeps k v red \<longrightarrow> keeps k v (fst b))"
proof -
  obtain t where t: "mask_ip (py_str (dget record ''ip_address'')) = Some t"
    using mask_ip_total by blast
  have a: "\<not> rule_fires record k \<Longrightarrow> truthy (dget record ''device_id'') \<Longrightarrow> k \<noteq> ''device_id''"
    by (auto simp: rule_fires_def)
  have b: "\<not> rule_fires record k \<Longrightarrow> truthy (dget record ''ip_address'') \<Longrightarrow> k \<noteq> ''ip_address''"
    by (auto simp: rule_fires_def)
  show ?thesis
    using t a b by (auto simp: device_rule_def Let_def keeps_dset_other)
qed

lemma restore_names_frame:
  assumes "keeps k v red" and "dget record k = v"
  shows "keeps k v (restore_names record red)"
  using assms by (simp add: restore_names_def Let_def keeps_dset_restore)


lemma gather_frame:
  "\<exists>e. gather record = Some e
     \<and> (distinct (map fst record) \<longrightarrow> (k, v) \<in> set record \<longrightarrow> no_pattern v
          \<longrightarrow> \<not> rule_fires record k \<longrightarrow> keeps k v (redacted e))"
proof -
  let ?np = "\<forall>v'. (k, v') \<in> set record \<longrightarrow> no_pattern v'"
  let ?H = "distinct (map fst record) \<and> (k, v) \<in> set record \<and> no_pattern v
      \<and> \<not> rule_fires record k"
  have np: "?H \<Longrightarrow> ?np" by (auto dest: eq_key_imp_eq_value)
  have k0: "?H \<Longrightarrow> keeps k v record" by (simp add: keeps_def)
  let ?st0 = "phone_fields record (record, False)"
  have k1: "?H \<Longrightarrow> keeps k v (fst ?st0)" using k0 by (simp add: phone_fields_frame)
  from for_items_frame[of "record" phone_step fst ?st0, OF phone_step_frame]
  obtain st1 where st1: "for_items phone_step record ?st0 = Some st1"
    and f1: "?np \<longrightarrow> keeps k v (fst ?st0) \<longrightarrow> keeps k v (fst st1)" by blast
  from for_items_frame[of "record" aadhar_step fst st1, OF aadhar_step_frame]
  obtain st2 where st2: "for_items aadhar_step record st1 = Some st2"
    and f2: "?np \<longrightarrow> keeps k v (fst st1) \<longrightarrow> keeps k v (fst st2)" by blast
  from for_items_frame[of "record" passport_step fst st2, OF passport_step_frame]
  obtain st3 where st3: "for_items passport_step record st2 = Some st3"
    and f3: "?np \<longrightarrow> keeps k v (fst st2) \<longrightarrow> keeps k v (fst st3)" by blast
  from upi_rule_frame[of "record" st3 k v]
  obtain st5 where st5: "upi_rule record st3 = Some st5"
    and f5: "?np \<longrightarrow> \<not> rule_fires record k \<longrightarrow> keeps k v (fst st3) \<longrightarrow> keeps k v (fst st5)"
    by blast
  have sa: "standalone record = Some st5"
    using st1 st2 st3 st5 by (simp add: standalone_def)
  from for_items_frame[of "record" email_step fst "(fst st5, False)", OF email_step_frame]
  obtain st6 where st6: "for_items email_step record (fst st5, False) = Some st6"
    and f6: "?np \<longrightarrow> keeps k v (fst st5) \<longrightarrow> keeps k v (fst st6)" by auto
  let ?st7 = "name_rule record (fst st6)"
  let ?st8 = "address_rule record (fst ?st7)"
  from device_rule_frame[of "record" "fst ?st8" k v]
  obtain st9 where st9: "device_rule record (fst ?st8) = Some st9"
    and f9: "\<not> rule_fires record k \<longrightarrow> keeps k v (fst ?st8) \<longrightarrow> keeps k v (fst st9)" by blast
  let ?e = "\<lparr> redacted = fst st9, standalone_found = snd st5, email_present = snd st6,
            name_present = snd ?st7, address_present = snd ?st8, device_present = snd st9 \<rparr>"
  have run: "gather record = Some ?e"
    using sa st6 st9 by (simp add: gather_def split_beta)
  have "?H \<longrightarrow> keeps k v (fst st9)"
  proof
    assume H: ?H
    from k1[OF H] f1 np[OF H] have "keeps k v (fst st1)" by blast
    with f2 np[OF H] have "keeps k v (fst st2)" by blast
    with f3 np[OF H] have "keeps k v (fst st3)" by blast
    with f5 np[OF H] H have "keeps k v (fst st5)" by blast
    with f6 np[OF H] have "keeps k v (fst st6)" by blast
    with H have "keeps k v (fst ?st7)" by (simp add: name_rule_frame)
    with H have "keeps k v (fst ?st8)" by (simp add: address_rule_frame)
    with f9 H show "keeps k v (fst st9)" by blast
  qed
  with run show ?thesis by auto
qed

lemma rollback_frame:
  "\<exists>b. rollback record red = Some b
     \<and> ((\<forall>v'. (k, v') \<in> set record \<longrightarrow> no_pattern v') \<longrightarrow> dget record k = v
          \<longrightarrow> keeps k v red \<longrightarrow> keeps k v b)"
proof -
  from for_items_frame[of "record" restore_email "\<lambda>d. d" red, OF restore_email_frame]
  obtain b where b: "for_items restore_email record red = Some b"
    and f: "(\<forall>v'. (k, v') \<in> set record \<longrightarrow> no_pattern v') \<longrightarrow> keeps k v red \<longrightarrow> keeps k v b"
    by blast
  then show ?thesis by (auto simp: rollback_def restore_names_frame)
qed

lemma sweep_frame:
  "\<exists>b. sweep red = Some b \<and> (no_pattern v \<longrightarrow> keeps k v red \<longrightarrow> keeps k v b)"
proof -
  from for_items_frame[of red sweep_step "\<lambda>d. d" red, OF sweep_step_frame]
  obtain b where b: "for_items sweep_step red red = Some b"
    and f: "(\<forall>v'. (k, v') \<in> set red \<longrightarrow> no_pattern v') \<longrightarrow> keeps k v red \<longrightarrow> keeps k v b"
    by blast
  have "no_pattern v \<longrightarrow> keeps k v red \<longrightarrow> keeps k v b"
  proof (intro impI)
    assume np: "no_pattern v" and kp: "keeps k v red"
    then have "\<forall>v'. (k, v') \<in> set red \<longrightarrow> no_pattern v'" by (auto dest: keeps_unique)
    with f kp show "keeps k v b" by blast
  qed
  with b show ?thesis by (simp add: sweep_def)
qed

lemma detect_and_mask_frame:
  "\<exists>e out. gather record = Some e
     \<and> detect_and_mask record = Some (out, standalone_found e \<or> 2 \<le> combinatorial_count e)
     \<and> (distinct (map fst record) \<longrightarrow> (k, v) \<in> set record \<longrightarrow> no_pattern v
          \<longrightarrow> \<not> rule_fires record k \<longrightarrow> map_of out k = Some v)"
proof -
  let ?H = "distinct (map fst record) \<and> (k, v) \<in> set record \<and> no_pattern v
      \<and> \<not> rule_fires record k"
  from gather_frame[of "record" k v] obtain e where e: "gather record = Some e"
    and fe: "?H \<longrightarrow> keeps k v (redacted e)" by blast
  let ?pii = "standalone_found e \<or> 2 \<le> combinatorial_count e"
  have np: "?H \<Longrightarrow> \<forall>v'. (k, v') \<in> set record \<longrightarrow> no_pattern v'"
    by (auto dest: eq_key_imp_eq_value)
  have dg: "?H \<Longrightarrow> dget record k = v" by (auto simp: dget_def)
  show ?thesis
  proof (cases ?pii)
    case True
    from sweep_frame[of "redacted e" v k] obtain b where b: "sweep (redacted e) = Some b"
      and fb: "no_pattern v \<longrightarrow> keeps k v (redacted e) \<longrightarrow> keeps k v b" by blast
    have run: "detect_and_mask record = Some (clean b, ?pii)"
      using e b True by (auto simp: detect_and_mask_def)
    have "?H \<longrightarrow> map_of (clean b) k = Some v"
    proof
      assume H: ?H
      with fe fb have "keeps k v b" by blast
      then show "map_of (clean b) k = Some v" by (simp add: keeps_def clean_distinct)
    qed
    with e run show ?thesis by blast
  next
    case False
    from rollback_frame[of "record" "redacted e" k v] obtain b
      where b: "rollback record (redacted e) = Some b"
      and fb: "(\<forall>v'. (k, v') \<in> set record \<longrightarrow> no_pattern v') \<longrightarrow> dget record k = v
          \<longrightarrow> keeps k v (redacted e) \<longrightarrow> keeps k v b" by blast
    have run: "detect_and_mask record = Some (clean b, ?pii)"
      using e b False by (auto simp: detect_and_mask_def)
    have "?H \<longrightarrow> map_of (clean b) k = Some v"
    proof
      assume H: ?H
      with fe fb np[OF H] dg[OF H] have "keeps k v b" by blast
      then show "map_of (clean b) k = Some v" by (simp add: keeps_def clean_distinct)
    qed
    with e run show ?thesis by blast
  qed
qed

section \<open>The phone masker on ten digits\<close>

lemma scan_Cls: "scan (Cls P) 0 p s = map (\<lambda>c. if P c then Mat [] [c] else Lit c) s"
  by (induction s arbitrary: p) simp_all

lemma strip_nondigits: "re_sub NONDIGIT_RE (\<lambda>m. []) s = filter is_digit s"
  by (induction s) (simp_all add: re_sub_def NONDIGIT_RE_def scan_Cls)

lemma filter_all: "\<forall>c\<in>set s. P c \<Longrightarrow> filter P s = s"
  by (induction s) simp_all

lemma length_ten:
  "length s = 10 \<Longrightarrow> \<exists>a b c d e f g h i j. s = [a, b, c, d, e, f, g, h, i, j]"
  by (auto simp: eval_nat_numeral length_Suc_conv)

lemma digit_is_word: "is_digit c \<Longrightarrow> is_word c"
  by (simp add: is_word_def is_alnum_def)

lemma X_not_digit: "\<not> is_digit CHR ''X''"
  by (simp add: is_digit_def code_def)

lemma X_is_word: "is_word CHR ''X''"
  by (simp add: is_word_def is_alnum_def is_alpha_def is_upper_def code_def)

lemma masked_phone_no_match:
  assumes "is_digit a" "is_digit b" "is_digit i" "is_digit j"
  shows "scan PHONE_RE 0 None [a, b, CHR ''X'', CHR ''X'', CHR ''X'', CHR ''X'', CHR ''X'', CHR ''X'', i, j]
    = map Lit [a, b, CHR ''X'', CHR ''X'', CHR ''X'', CHR ''X'', CHR ''X'', CHR ''X'', i, j]"
  using assms
  by (simp add: PHONE_RE_def at_boundary_def word_opt_def prev_after_def digit_is_word
      X_not_digit X_is_word)

lemma masked_phone_no_search:
  assumes "is_digit a" "is_digit b" "is_digit i" "is_digit j"
  shows "re_search PHONE_RE [a, b, CHR ''X'', CHR ''X'', CHR ''X'', CHR ''X'', CHR ''X'', CHR ''X'', i, j]
    = None"
  using assms
  by (simp add: re_search_def PHONE_RE_def at_boundary_def word_opt_def prev_after_def digit_is_word
      X_not_digit X_is_word)

section \<open>Records in which no pattern is found\<close>

lemma for_items_id: "(\<And>kv. kv \<in> set items \<Longrightarrow> f kv a = Some a) \<Longrightarrow> for_items f items a = Some a"
  by (induction items) simp_all

lemma phone_step_id: "no_pattern (snd kv) \<Longrightarrow> phone_step kv a = Some a"
  using phone_step_frame[of kv a] by auto

lemma aadhar_step_id: "no_pattern (snd kv) \<Longrightarrow> aadhar_step kv a = Some a"
  using aadhar_step_frame[of kv a] by auto

lemma passport_step_id: "no_pattern (snd kv) \<Longrightarrow> passport_step kv a = Some a"
  using passport_step_frame[of kv a] by auto

lemma upi_step_id: "no_pattern (snd kv) \<Longrightarrow> upi_step kv a = Some a"
  using upi_step_frame[of kv a] by auto

lemma email_step_id: "no_pattern (snd kv) \<Longrightarrow> email_step kv a = Some a"
  using email_step_frame[of kv a] by auto

lemma restore_email_id: "no_pattern (snd kv) \<Longrightarrow> restore_email kv a = Some a"
  using restore_email_frame[of kv a] by auto

lemma pin_no_pattern: "no_pattern (PStr ''560001'')"
  by code_simp

lemma address_only_run:
  assumes "truthy av" "truthy cv" "no_pattern av" "no_pattern cv"
  shows "detect_and_mask [(''address'', av), (''city'', cv), (''pin_code'', PStr ''560001'')]
    = Some ([(''address'', PStr ''[REDACTED_PII_ADDRESS]''), (''city'', cv),
             (''pin_code'', PStr ''56XXX'')], False)"
proof -
  let ?r = "[(''address'', av), (''city'', cv), (''pin_code'', PStr ''560001'')]"
  let ?red = "[(''address'', PStr ''[REDACTED_PII_ADDRESS]''), (''city'', cv),
             (''pin_code'', PStr ''56XXX'')]"
  have np: "\<And>kv. kv \<in> set ?r \<Longrightarrow> no_pattern (snd kv)"
    using assms(3,4) pin_no_pattern by auto
  have pf: "phone_fields ?r (?r, False) = (?r, False)"
    by (simp add: phone_fields_def phone_field_def has_key_def)
  have p1: "for_items phone_step ?r (?r, False) = Some (?r, False)"
    using np by (intro for_items_id) (simp add: phone_step_id)
  have p2: "for_items aadhar_step ?r (?r, False) = Some (?r, False)"
    using np by (intro for_items_id) (simp add: aadhar_step_id)
  have p3: "for_items passport_step ?r (?r, False) = Some (?r, False)"
    using np by (intro for_items_id) (simp add: passport_step_id)
  have p4: "for_items upi_step ?r (?r, False) = Some (?r, False)"
    using np by (intro for_items_id) (simp add: upi_step_id)
  have upi: "upi_rule ?r (?r, False) = Some (?r, False)"
    unfolding upi_rule_def p4 by (simp add: has_key_def)
  have sa: "standalone ?r = Some (?r, False)"
    unfolding standalone_def pf by (simp del: for_items.simps add: p1 p2 p3 upi)
  have em: "for_items email_step ?r (?r, False) = Some (?r, False)"
    using np by (intro for_items_id) (simp add: email_step_id)
  have nm: "name_rule ?r ?r = (?r, False)"
    by (simp add: name_rule_def both_names_def dget_def)
  have pc: "re_sub NONDIGIT_RE (\<lambda>m. []) ''560001'' = ''560001''"
    by (simp add: strip_nondigits is_digit_def code_def)
  have ad: "address_rule ?r ?r = (?red, True)"
    using assms(1,2) by (simp add: address_rule_def dget_def pc mask_pin_def)
  have dv: "device_rule ?r ?red = Some (?red, False)"
    by (simp add: device_rule_def dget_def)
  have g: "gather ?r = Some \<lparr> redacted = ?red, standalone_found = False, email_present = False,
      name_present = False, address_present = True, device_present = False \<rparr>"
    by (simp del: for_items.simps add: gather_def sa em nm ad dv)
  have re: "for_items restore_email ?r ?red = Some ?red"
    using np by (intro for_items_id) (simp add: restore_email_id)
  have rn: "restore_names ?r ?red = ?red"
    by (simp add: restore_names_def dget_def name_tokens_def)
  have rb: "rollback ?r ?red = Some ?red"
    by (simp del: for_items.simps add: rollback_def re rn)
  have cl: "clean ?red = ?red"
    by (simp add: clean_def)
  show ?thesis
    by (simp del: for_items.simps add: detect_and_mask_def g combinatorial_count_def rb cl)
qed

section \<open>The email masker\<close>

lemma email_search_groups:
  assumes "re_search EMAIL_RE e = Some m"
  shows "\<exists>l d. fst m = [l, d] \<and> l \<noteq> []"
proof -
  obtain g w where m: "m = (g, w)" by (cases m)
  from assms m search_from_way[of EMAIL_RE None e g w] obtain p' s' r
    where "(g, w, r) \<in> set (rmatch EMAIL_RE p' s')" by (auto simp: re_search_def)
  from email_way[OF this] m show ?thesis by simp
qed

section \<open>The rows of a batch\<close>

lemma rows_out_append:
  "rows_out loads (xs @ ys) = do { a \<leftarrow> rows_out loads xs; b \<leftarrow> rows_out loads ys; Some (a @ b) }"
proof (induction xs)
  case Nil
  then show ?case by simp
next
  case (Cons x xs)
  then show ?case
    by (cases "process_row loads x"; cases "rows_out loads xs"; cases "rows_out loads ys") simp_all
qed

lemma empty_record_run: "detect_and_mask [] = Some ([], False)"
  by code_simp

lemma rows_out_those: "rows_out loads rows = those (map (process_row loads) rows)"
proof (induction rows)
  case Nil
  then show ?case by simp
next
  case (Cons r rs)
  then show ?case by (cases "process_row loads r"; cases "those (map (process_row loads) rs)") simp_all
qed

section \<open>The runs of the examples\<close>

lemma john_search: "re_search EMAIL_RE ''john.smith@example.com''
    = Some ([''john.smith'', ''example.com''], ''john.smith@example.com'')"
  by code_simp

lemma phone_only_run:
  "detect_and_mask [(''phone'', PStr ''9876543210'')] = Some ([(''phone'', PStr ''98XXXXXX10'')], True)"
  by code_simp

lemma john_smith_run:
  "detect_and_mask [(''name'', PStr ''John Smith''), (''email'', PStr ''john.smith@example.com'')]
   = Some ([(''name'', PStr ''JXXX SXXXX''), (''email'', PStr ''joXXXXXXXX@example.com'')], True)"
  by code_simp

lemma name_only_run:
  "detect_and_mask [(''name'', PStr ''John Smith'')] = Some ([(''name'', PStr ''JXXX SXXXX'')], False)"
  by code_simp

lemma x_note_run:
  "detect_and_mask [(''note'', PStr ''X 9876543210'')] = Some ([(''note'', PStr ''X 9876543210'')], False)"
  by code_simp

lemma x_note_matches: "matches PHONE_RE ''X 9876543210''"
  by code_simp

lemma mg_road_no_pattern: "no_pattern (PStr ''12 MG Road'')"
  by code_simp

lemma bengaluru_no_pattern: "no_pattern (PStr ''Bengaluru'')"
  by code_simp

lemma hello_no_pattern: "no_pattern (PStr ''hello'')"
  by code_simp

section \<open>The properties\<close>

text \<open>
  C1. For every record \<open>detect_and_mask\<close> returns, and its verdict is \<open>standalone_found\<close> or
  at least two true flags among \<open>name_present\<close>, \<open>email_present\<close>, \<open>address_present\<close> and
  \<open>device_present\<close>, the evidence being the one gathered from that record. The rows of a
  batch are the rows of each input row taken alone.
\<close>

theorem verdict_standalone_or_two_signals:
  "(\<exists>e out. gather record = Some e
      \<and> detect_and_mask record
          = Some (out, standalone_found e
                   \<or> 2 \<le> count_true [name_present e, email_present e, address_present e,
                                       device_present e]))
   \<and> rows_out loads rows = those (map (process_row loads) rows)"
proof -
  from detect_and_mask_frame[of "record" "[]" PNone] obtain e out where
    e: "gather record = Some e" and
    d: "detect_and_mask record = Some (out, standalone_found e \<or> 2 \<le> combinatorial_count e)"
    by blast
  have "combinatorial_count e
      = count_true [name_present e, email_present e, address_present e, device_present e]"
    by (simp add: combinatorial_count_def count_true_def)
  with e d show ?thesis by (auto simp: rows_out_those)
qed

text \<open>
  C2. The record whose only field is \<open>phone = "9876543210"\<close>: the verdict is true and the
  masked phone is \<open>"98XXXXXX10"\<close>.
\<close>

theorem phone_only_record:
  "verdict_of (detect_and_mask [(''phone'', PStr ''9876543210'')]) = Some True
   \<and> out_field (detect_and_mask [(''phone'', PStr ''9876543210'')]) ''phone''
       = Some (PStr ''98XXXXXX10'')"
  by (simp add: phone_only_run verdict_of_def out_field_def)

text \<open>
  C3 as stated fails: for \<open>name = "John Smith"\<close> and \<open>email = "john.smith@example.com"\<close> the
  output email is not \<open>"joXXX@example.com"\<close>.
\<close>

theorem john_smith_email_not_three_x:
  "\<not> (verdict_of (detect_and_mask [(''name'', PStr ''John Smith''),
                                    (''email'', PStr ''john.smith@example.com'')]) = Some True
      \<and> out_field (detect_and_mask [(''name'', PStr ''John Smith''),
                                    (''email'', PStr ''john.smith@example.com'')]) ''name''
          = Some (PStr ''JXXX SXXXX'')
      \<and> out_field (detect_and_mask [(''name'', PStr ''John Smith''),
                                    (''email'', PStr ''john.smith@example.com'')]) ''email''
          = Some (PStr ''joXXX@example.com''))"
  by (simp add: john_smith_run verdict_of_def out_field_def)

text \<open>
  C3, amended. For that record the verdict is true, the name becomes \<open>"JXXX SXXXX"\<close> and the
  email becomes \<open>"joXXXXXXXX@example.com"\<close>: the eight characters of the local part behind
  the first two are each replaced by an \<open>X\<close>.
\<close>

theorem john_smith_record_masked:
  "verdict_of (detect_and_mask [(''name'', PStr ''John Smith''),
                                (''email'', PStr ''john.smith@example.com'')]) = Some True
   \<and> out_field (detect_and_mask [(''name'', PStr ''John Smith''),
                                 (''email'', PStr ''john.smith@example.com'')]) ''name''
       = Some (PStr ''JXXX SXXXX'')
   \<and> out_field (detect_and_mask [(''name'', PStr ''John Smith''),
                                 (''email'', PStr ''john.smith@example.com'')]) ''email''
       = Some (PStr ''joXXXXXXXX@example.com'')"
  by (simp add: john_smith_run verdict_of_def out_field_def)

text \<open>
  C4 as stated fails: for the record whose only field is \<open>name = "John Smith"\<close> the output
  name is not the original value.
\<close>

theorem name_only_not_restored:
  "\<not> (verdict_of (detect_and_mask [(''name'', PStr ''John Smith'')]) = Some False
      \<and> out_field (detect_and_mask [(''name'', PStr ''John Smith'')]) ''name''
          = Some (PStr ''John Smith''))"
  by (simp add: name_only_run verdict_of_def out_field_def)

text \<open>
  C4, amended. For that record the verdict is false and the output name is
  \<open>"JXXX SXXXX"\<close>: the roll-back restores \<open>name\<close> only when it has fewer than two tokens.
\<close>

theorem name_only_stays_masked:
  "verdict_of (detect_and_mask [(''name'', PStr ''John Smith'')]) = Some False
   \<and> out_field (detect_and_mask [(''name'', PStr ''John Smith'')]) ''name''
       = Some (PStr ''JXXX SXXXX'')"
  by (simp add: name_only_run verdict_of_def out_field_def)

text \<open>
  C5 as stated fails: for \<open>address = "12 MG Road"\<close>, \<open>city = "Bengaluru"\<close> and
  \<open>pin_code = "560001"\<close> the verdict is false, but the output address is not the original
  value.
\<close>

theorem address_only_not_restored:
  "\<not> (verdict_of (detect_and_mask [(''address'', PStr ''12 MG Road''), (''city'', PStr ''Bengaluru''),
                                    (''pin_code'', PStr ''560001'')]) = Some False
      \<and> out_field (detect_and_mask [(''address'', PStr ''12 MG Road''), (''city'', PStr ''Bengaluru''),
                                    (''pin_code'', PStr ''560001'')]) ''address''
          = Some (PStr ''12 MG Road''))"
  using address_only_run[of "PStr ''12 MG Road''" "PStr ''Bengaluru''"]
  by (simp add: mg_road_no_pattern bengaluru_no_pattern verdict_of_def out_field_def)

text \<open>
  C5, amended. For a record of \<open>address\<close>, \<open>city\<close> and \<open>pin_code = "560001"\<close> whose address
  and city are true values in which no pattern is found, the verdict is false
  (\<open>address_present\<close> alone), and the output holds the address token for \<open>address\<close> and
  \<open>"56XXX"\<close> for \<open>pin_code\<close>, the city unchanged: the roll-back restores neither field.
\<close>

theorem address_only_stays_redacted:
  assumes "truthy av" and "truthy cv" and "no_pattern av" and "no_pattern cv"
  shows "verdict_of (detect_and_mask [(''address'', av), (''city'', cv),
                                      (''pin_code'', PStr ''560001'')]) = Some False
     \<and> out_field (detect_and_mask [(''address'', av), (''city'', cv),
                                   (''pin_code'', PStr ''560001'')]) ''address''
         = Some (PStr ''[REDACTED_PII_ADDRESS]'')
     \<and> out_field (detect_and_mask [(''address'', av), (''city'', cv),
                                   (''pin_code'', PStr ''560001'')]) ''city'' = Some cv
     \<and> out_field (detect_and_mask [(''address'', av), (''city'', cv),
                                   (''pin_code'', PStr ''560001'')]) ''pin_code''
         = Some (PStr ''56XXX'')"
  by (simp add: address_only_run[OF assms] verdict_of_def out_field_def)

theorem address_only_stays_redacted_witness:
  "truthy (PStr ''12 MG Road'') \<and> truthy (PStr ''Bengaluru'')
   \<and> no_pattern (PStr ''12 MG Road'') \<and> no_pattern (PStr ''Bengaluru'')
   \<and> verdict_of (detect_and_mask [(''address'', PStr ''12 MG Road''), (''city'', PStr ''Bengaluru''),
                                   (''pin_code'', PStr ''560001'')]) = Some False
   \<and> out_field (detect_and_mask [(''address'', PStr ''12 MG Road''), (''city'', PStr ''Bengaluru''),
                                 (''pin_code'', PStr ''560001'')]) ''address''
       = Some (PStr ''[REDACTED_PII_ADDRESS]'')"
proof -
  have a: "truthy (PStr ''12 MG Road'')" and c: "truthy (PStr ''Bengaluru'')" by simp_all
  from address_only_stays_redacted[OF a c mg_road_no_pattern bengaluru_no_pattern]
    a c mg_road_no_pattern bengaluru_no_pattern
  show ?thesis by blast
qed

text \<open>
  C6. For every string of exactly ten digits the phone masker returns its first two
  digits, six \<open>X\<close> and its last two digits; the masked value no longer matches the phone
  pattern, and the phone substitution applied to it returns it unchanged.
\<close>

theorem mask_phone_ten_digits:
  assumes "length s = 10" and "\<forall>c\<in>set s. is_digit c"
  shows "mask_phone s = take 2 s @ ''XXXXXX'' @ drop 8 s
     \<and> \<not> matches PHONE_RE (mask_phone s)
     \<and> sub_phone (mask_phone s) = Some (mask_phone s)"
proof -
  from length_ten[OF assms(1)] obtain a b c d e f g h i j
    where s: "s = [a, b, c, d, e, f, g, h, i, j]" by blast
  from assms(2) have "filter is_digit s = s" by (rule filter_all)
  with assms(1) have m: "mask_phone s = take 2 s @ ''XXXXXX'' @ drop 8 s"
    by (simp add: mask_phone_def strip_nondigits last_n_def)
  from s assms(2) have dg: "is_digit a" "is_digit b" "is_digit i" "is_digit j" by simp_all
  from m s have ms: "mask_phone s = [a, b, CHR ''X'', CHR ''X'', CHR ''X'', CHR ''X'', CHR ''X'', CHR ''X'', i, j]"
    by simp
  have "\<not> matches PHONE_RE (mask_phone s)"
    unfolding ms matches_def using masked_phone_no_search[OF dg] by simp
  moreover have "sub_phone (mask_phone s) = Some (mask_phone s)"
    unfolding ms sub_phone_def re_sub_try_def masked_phone_no_match[OF dg] by simp
  ultimately show ?thesis using m by simp
qed

theorem mask_phone_ten_digits_witness:
  "length ''9876543210'' = 10 \<and> list_all is_digit ''9876543210''
   \<and> mask_phone ''9876543210'' = ''98XXXXXX10''
   \<and> sub_phone ''98XXXXXX10'' = Some ''98XXXXXX10''"
proof -
  have l: "length ''9876543210'' = 10" by simp
  have d: "\<forall>c\<in>set ''9876543210''. is_digit c" by (simp add: is_digit_def code_def)
  note t = mask_phone_ten_digits[OF l d]
  from t have m: "mask_phone ''9876543210'' = ''98XXXXXX10''" by simp
  from t have r: "sub_phone (mask_phone ''9876543210'') = Some (mask_phone ''9876543210'')"
    by blast
  from r have "sub_phone ''98XXXXXX10'' = Some ''98XXXXXX10''" unfolding m .
  with l d m show ?thesis by (simp add: list_all_iff)
qed

text \<open>
  C7. For every input in which the email pattern is found, with local part \<open>l\<close> and
  domain \<open>d\<close>, the local part is not empty and the email masker returns the first
  character of \<open>l\<close> and one \<open>X\<close> when \<open>l\<close> has at most two characters, otherwise the first
  two characters of \<open>l\<close> and \<open>max(3, len(l) - 2)\<close> times \<open>X\<close>; then \<open>@\<close> and \<open>d\<close> unchanged.
\<close>

theorem mask_email_shape:
  assumes "re_search EMAIL_RE e = Some m"
  shows "\<exists>l d. group m 1 = Some l \<and> group m 2 = Some d \<and> l \<noteq> []
     \<and> mask_email e =
         Some ((if length l \<le> 2 then take 1 l @ ''X''
                else take 2 l @ replicate (max 3 (length l - 2)) CHR ''X'') @ ''@'' @ d)"
proof -
  from email_search_groups[OF assms] obtain l d where g: "fst m = [l, d]" and l: "l \<noteq> []"
    by blast
  obtain w where m: "m = ([l, d], w)" using g by (cases m) simp
  have g1: "group m 1 = Some l" and g2: "group m 2 = Some d"
    by (simp_all add: m group_def)
  from l obtain c cs where lc: "l = c # cs" by (cases l) auto
  have ml: "mask_local l = Some (if length l \<le> 2 then take 1 l @ ''X''
                else take 2 l @ replicate (max 3 (length l - 2)) CHR ''X'')"
    by (simp add: mask_local_def lc)
  have "mask_email e = Some ((if length l \<le> 2 then take 1 l @ ''X''
                else take 2 l @ replicate (max 3 (length l - 2)) CHR ''X'') @ ''@'' @ d)"
    unfolding mask_email_def assms using g1 g2 ml by simp
  with g1 g2 l show ?thesis by blast
qed

theorem mask_email_shape_witness:
  "re_search EMAIL_RE ''john.smith@example.com''
     = Some ([''john.smith'', ''example.com''], ''john.smith@example.com'')
   \<and> mask_email ''john.smith@example.com'' = Some ''joXXXXXXXX@example.com''"
proof -
  from mask_email_shape[OF john_search] obtain l d where
    "group ([''john.smith'', ''example.com''], ''john.smith@example.com'') 1 = Some l"
    "group ([''john.smith'', ''example.com''], ''john.smith@example.com'') 2 = Some d"
    and me: "mask_email ''john.smith@example.com'' =
         Some ((if length l \<le> 2 then take 1 l @ ''X''
                else take 2 l @ replicate (max 3 (length l - 2)) CHR ''X'') @ ''@'' @ d)"
    by blast
  then have "l = ''john.smith''" "d = ''example.com''" by (simp_all add: group_def)
  with me have "mask_email ''john.smith@example.com'' = Some ''joXXXXXXXX@example.com''"
    by (simp add: eval_nat_numeral)
  with john_search show ?thesis by blast
qed

text \<open>
  C8. For every input row whose payload fails \<open>json.loads\<close> as it is and with its single
  quotes replaced by double quotes, the output row has the masked payload \<open>{}\<close> and the
  verdict \<open>False\<close>; in a batch the rows before and behind it are those of the batch
  without it.
\<close>

theorem unparsable_payload_row:
  assumes "data_json_raw_of r = Some raw" and "loads raw = None"
    and "loads (replace_quotes raw) = None"
  shows "process_row loads r
       = Some \<lparr> record_id = record_id_of r, redacted_data_json = ''{}'', is_pii = ''False'' \<rparr>
     \<and> rows_out loads (before @ r # after)
       = do { a \<leftarrow> rows_out loads before; b \<leftarrow> rows_out loads after;
              Some (a @ \<lparr> record_id = record_id_of r, redacted_data_json = ''{}'',
                           is_pii = ''False'' \<rparr> # b) }"
proof -
  have p: "process_row loads r
       = Some \<lparr> record_id = record_id_of r, redacted_data_json = ''{}'', is_pii = ''False'' \<rparr>"
    using assms
    by (simp add: process_row_def parse_payload_def detect_payload_def empty_record_run
        json_dumps_def)
  then show ?thesis
    by (cases "rows_out loads before"; cases "rows_out loads after") (simp_all add: rows_out_append)
qed

theorem unparsable_payload_row_witness:
  "data_json_raw_of [''id'' \<mapsto> ''7'', ''data'' \<mapsto> ''{bad''] = Some ''{bad''
   \<and> process_row (\<lambda>t. None) [''id'' \<mapsto> ''7'', ''data'' \<mapsto> ''{bad'']
       = Some \<lparr> record_id = Some ''7'', redacted_data_json = ''{}'', is_pii = ''False'' \<rparr>"
proof -
  have raw: "data_json_raw_of [''id'' \<mapsto> ''7'', ''data'' \<mapsto> ''{bad''] = Some ''{bad''"
    by (simp add: data_json_raw_of_def py_or_def)
  have rid: "record_id_of [''id'' \<mapsto> ''7'', ''data'' \<mapsto> ''{bad''] = Some ''7''"
    by (simp add: record_id_of_def py_or_def)
  from unparsable_payload_row[OF raw, of "\<lambda>t. None" "[]" "[]"] rid raw
  show ?thesis by simp
qed

text \<open>
  C9. For every record (a dictionary: its keys are distinct) and every field of it in whose
  value no pattern is found and on which no rule of a known field fires, the output of
  \<open>detect_and_mask\<close> holds that field with its value unchanged.
\<close>

theorem untouched_field_unchanged:
  assumes "distinct (map fst record)" and "(k, v) \<in> set record" and "no_pattern v"
    and "\<not> rule_fires record k"
  shows "\<exists>out verdict. detect_and_mask record = Some (out, verdict) \<and> map_of out k = Some v"
  using detect_and_mask_frame[of "record" k v] assms by blast

theorem untouched_field_unchanged_witness:
  "distinct (map fst [(''note'', PStr ''hello''), (''phone'', PStr ''9876543210'')])
   \<and> no_pattern (PStr ''hello'')
   \<and> \<not> rule_fires [(''note'', PStr ''hello''), (''phone'', PStr ''9876543210'')] ''note''
   \<and> (\<exists>out verdict.
        detect_and_mask [(''note'', PStr ''hello''), (''phone'', PStr ''9876543210'')]
          = Some (out, verdict)
        \<and> map_of out ''note'' = Some (PStr ''hello''))"
proof -
  let ?r = "[(''note'', PStr ''hello''), (''phone'', PStr ''9876543210'')]"
  have d: "distinct (map fst ?r)" by simp
  have m: "(''note'', PStr ''hello'') \<in> set ?r" by simp
  have f: "\<not> rule_fires ?r ''note''" by (simp add: rule_fires_def)
  from untouched_field_unchanged[OF d m hello_no_pattern f] d hello_no_pattern f
  show ?thesis by blast
qed

text \<open>
  C10. There is a record with a word-bounded run of ten digits in a string field that is
  neither \<open>phone\<close> nor \<open>contact\<close>, whose value also holds an \<open>X\<close>, for which the verdict is
  false and the output holds the value unchanged, the ten digits unmasked.
\<close>

theorem x_in_value_suppresses_phone_rule:
  "\<exists>k v. k \<noteq> ''phone'' \<and> k \<noteq> ''contact'' \<and> matches PHONE_RE v \<and> CHR ''X'' \<in> set v
     \<and> detect_and_mask [(k, PStr v)] = Some ([(k, PStr v)], False)"
proof (intro exI)
  show "''note'' \<noteq> ''phone'' \<and> ''note'' \<noteq> ''contact'' \<and> matches PHONE_RE ''X 9876543210''
     \<and> CHR ''X'' \<in> set ''X 9876543210''
     \<and> detect_and_mask [(''note'', PStr ''X 9876543210'')]
         = Some ([(''note'', PStr ''X 9876543210'')], False)"
    by (simp add: x_note_run x_note_matches)
qed

end
